theory Spec2Isabelle
  imports Main
begin

unbundle bit_operations_syntax

chapter \<open>Software suspend (kernel/power/swsusp.c): saving memory to swap and reading it back\<close>

section \<open>Data model\<close>

text \<open>
  A swap entry packs a swap device number and a page offset into one word
  (\<open>swp_entry_t\<close>, with \<open>swp_entry\<close>, \<open>swp_type\<close> and \<open>swp_offset\<close>). The
  packing is declared in a header that is not among the sources; the model keeps the two
  components, and the entry whose \<open>val\<close> is 0 is the one with device 0 and offset 0.
\<close>

record swp_entry_t =
  swp_type :: nat
  swp_offset :: nat

definition swp_entry :: "nat \<Rightarrow> nat \<Rightarrow> swp_entry_t" where
  "swp_entry t off = \<lparr>swp_type = t, swp_offset = off\<rparr>"

definition val_is_zero :: "swp_entry_t \<Rightarrow> bool" where
  "val_is_zero e = (swp_type e = 0 \<and> swp_offset e = 0)"

text \<open>
  One page block entry per saved page: the address of the copy, the address the page came
  from, and the swap slot of the copy. Addresses are the kernel's virtual addresses of
  page frames, as natural numbers.
\<close>

record pbe =
  address :: nat
  orig_address :: nat
  swap_address :: swp_entry_t

record suspend_header =
  version_code :: nat
  hdr_num_physpages :: nat
  machine :: string
  version :: string
  num_cpus :: int
  page_size :: int
  suspend_pagedir :: nat
  num_pbes :: nat

text \<open>
  A page, as the code reads it through \<open>union diskpage\<close> and as an array of pbes:
  the swap signature (\<open>swh.magic.magic\<close>, ten bytes), the suspend header (\<open>sh\<close>),
  the pbes of a page of the page directory, the link in the final bytes of the page
  (\<open>link.next\<close>), and the rest of its content. The code copies, reads and writes pages
  whole and otherwise touches one overlay of a page at a time, so the overlays are kept as
  independent components. The comment in \<open>mark_swapfiles\<close> says that the link does not
  lie inside the signature; the model follows it.
\<close>

record page =
  magic :: string
  sh :: suspend_header
  pbes :: "nat \<Rightarrow> pbe"
  link_next :: swp_entry_t
  payload :: nat

definition NUL :: char where
  "NUL = CHR 0x00"

definition zero_pbe :: pbe where
  "zero_pbe = \<lparr>address = 0, orig_address = 0, swap_address = swp_entry 0 0\<rparr>"

definition zero_header :: suspend_header where
  "zero_header = \<lparr>version_code = 0, hdr_num_physpages = 0, machine = replicate 8 NUL,
     version = replicate 20 NUL, num_cpus = 0, page_size = 0, suspend_pagedir = 0,
     num_pbes = 0\<rparr>"

definition zero_page :: page where
  "zero_page = \<lparr>magic = replicate 10 NUL, sh = zero_header, pbes = (\<lambda>_. zero_pbe),
     link_next = swp_entry 0 0, payload = 0\<rparr>"

text \<open>
  What the file takes from the rest of the kernel and from the architecture: constants,
  macros and values that do not change while it runs. \<open>SUSPEND_PD_PAGES\<close> (the number
  of pages of a page directory of so many pbes) and \<open>get_bitmask_order\<close> are declared in
  headers that are not among the sources, and are parameters here, as is the number of
  pbes in a page (\<open>PAGE_SIZE / sizeof(struct pbe)\<close>). The page tables are set up
  elsewhere: \<open>mapped\<close> tells of an address whether the kernel can read and write the
  page there.
\<close>

record config =
  PAGE_SIZE :: nat
  PAGE_OFFSET :: nat
  PBES_PER_PAGE :: nat
  SUSPEND_PD_PAGES :: "nat \<Rightarrow> nat"
  get_bitmask_order :: "nat \<Rightarrow> nat"
  LINUX_VERSION_CODE :: nat
  num_physpages :: nat
  max_pfn :: nat
  utsname_machine :: string
  utsname_version :: string
  num_online_cpus :: int
  nosave_begin :: nat
  nosave_end :: nat
  MAX_SWAPFILES :: nat
  name_to_dev_t :: "string \<Rightarrow> nat"
  mapped :: "nat \<Rightarrow> bool"

type_synonym block_device = "nat \<Rightarrow> page option"

datatype event =
  BdevOpen nat
  | BdevRead nat
  | BdevPut
  | SwapRead swp_entry_t
  | SwapWrite swp_entry_t page

text \<open>
  The state the file works on. Memory is a store of pages by the address of the page.
  The page allocator and the swap allocator are outside the file: \<open>page_alloc\<close> holds,
  for each order, the answers the page allocator will give to the requests of that order,
  and \<open>swap_alloc\<close> the answers of the swap allocator, in order (an answer 0, or none
  left, is a failed allocation); \<open>freed\<close> records what was given back, and
  \<open>free_region\<close> is what \<open>is_head_of_free_region\<close> answers for a frame:
  the length of the free region it heads, 0 for any other frame. The free lists belong
  to the allocator; \<open>drained\<close> holds what \<open>free_region\<close> becomes at each
  \<open>drain_local_pages\<close>.
\<close>

record kstate =
  mem :: "nat \<Rightarrow> page"
  page_alloc :: "nat \<Rightarrow> nat list"
  freed :: "(nat \<times> nat) list"
  PageReserved :: "nat \<Rightarrow> bool"
  PageNosave :: "nat \<Rightarrow> bool"
  free_region :: "nat \<Rightarrow> nat"
  drained :: "(nat \<Rightarrow> nat) list"
  nr_free_pages :: nat
  freeswap :: nat
  swap_alloc :: "swp_entry_t list"
  swap_pages :: "nat \<Rightarrow> nat \<Rightarrow> page"
  swap_flags :: "nat \<Rightarrow> nat"
  block_devices :: "nat \<Rightarrow> int + block_device"
  io_log :: "event list"
  swapfile_used :: "nat \<Rightarrow> nat"
  root_swap :: nat
  resume_file :: string
  resume_device :: nat
  nr_copy_pages :: nat
  pagedir_nosave :: nat
  pagedir_save :: nat
  pagedir_order :: nat
  nr_copy_pages_check :: nat
  pagedir_order_check :: nat

text \<open>
  \<open>BUG()\<close>, a failed \<open>BUG_ON\<close> and \<open>panic\<close> do not return; neither does a
  read or write at an address that is not mapped, the null pointer among them
  (\<open>Oops\<close>).
\<close>

datatype fatal = BUG | Panic string | Oops

definition EPERM :: int where "EPERM = 1"
definition ENOENT :: int where "ENOENT = 2"
definition EIO :: int where "EIO = 5"
definition ENOMEM :: int where "ENOMEM = 12"
definition EFAULT :: int where "EFAULT = 14"
definition EINVAL :: int where "EINVAL = 22"
definition ENOSPC :: int where "ENOSPC = 28"

definition PAGES_FOR_IO :: nat where "PAGES_FOR_IO = 512"

definition SWAPFILE_UNUSED :: nat where "SWAPFILE_UNUSED = 0"
definition SWAPFILE_SUSPEND :: nat where "SWAPFILE_SUSPEND = 1"
definition SWAPFILE_IGNORED :: nat where "SWAPFILE_IGNORED = 2"
definition MARK_SWAP_SUSPEND :: int where "MARK_SWAP_SUSPEND = 0"
definition MARK_SWAP_RESUME :: int where "MARK_SWAP_RESUME = 2"

section \<open>C library and kernel primitives\<close>

text \<open>
  Strings are the bytes of a buffer; a read past the stored bytes finds the terminator.
\<close>

definition byte_at :: "string \<Rightarrow> char" where
  "byte_at s = (case s of [] \<Rightarrow> NUL | x # _ \<Rightarrow> x)"

definition strlen :: "string \<Rightarrow> nat" where
  "strlen s = length (takeWhile (\<lambda>x. x \<noteq> NUL) s)"

fun strncmp :: "string \<Rightarrow> string \<Rightarrow> nat \<Rightarrow> int" where
  "strncmp a b 0 = 0"
| "strncmp a b (Suc n) =
     (if byte_at a \<noteq> byte_at b then int (of_char (byte_at a)) - int (of_char (byte_at b))
      else if byte_at a = NUL then 0
      else strncmp (tl a) (tl b) n)"

fun memcmp :: "string \<Rightarrow> string \<Rightarrow> nat \<Rightarrow> int" where
  "memcmp a b 0 = 0"
| "memcmp a b (Suc n) =
     (if byte_at a \<noteq> byte_at b then int (of_char (byte_at a)) - int (of_char (byte_at b))
      else memcmp (tl a) (tl b) n)"

definition strncpy :: "string \<Rightarrow> string \<Rightarrow> nat \<Rightarrow> string" where
  "strncpy dst src n =
     (let s = takeWhile (\<lambda>x. x \<noteq> NUL) (take n src)
      in s @ replicate (n - length s) NUL @ drop n dst)"

definition memcpy :: "string \<Rightarrow> string \<Rightarrow> nat \<Rightarrow> string" where
  "memcpy dst src n = take n src @ replicate (n - length src) NUL @ drop n dst"

definition ADDRESS :: "config \<Rightarrow> nat \<Rightarrow> nat" where
  "ADDRESS c pfn = PAGE_OFFSET c + pfn * PAGE_SIZE c"

definition virt_to_pfn :: "config \<Rightarrow> nat \<Rightarrow> nat" where
  "virt_to_pfn c a = (a - PAGE_OFFSET c) div PAGE_SIZE c"

text \<open>The pbe \<open>pagedir + i\<close>: the page it lies in, reading it and writing it.\<close>

definition pbe_page :: "config \<Rightarrow> nat \<Rightarrow> nat \<Rightarrow> nat" where
  "pbe_page c pagedir i = pagedir + (i div PBES_PER_PAGE c) * PAGE_SIZE c"

definition pbe_at :: "config \<Rightarrow> (nat \<Rightarrow> page) \<Rightarrow> nat \<Rightarrow> nat \<Rightarrow> pbe" where
  "pbe_at c m pagedir i = pbes (m (pbe_page c pagedir i)) (i mod PBES_PER_PAGE c)"

definition pbe_update :: "config \<Rightarrow> nat \<Rightarrow> nat \<Rightarrow> (pbe \<Rightarrow> pbe) \<Rightarrow> (nat \<Rightarrow> page) \<Rightarrow> (nat \<Rightarrow> page)" where
  "pbe_update c pagedir i f m =
     (let pg = pbe_page c pagedir i; k = i mod PBES_PER_PAGE c
      in m(pg := (m pg)\<lparr>pbes := (pbes (m pg))(k := f (pbes (m pg) k))\<rparr>))"

text \<open>
  \<open>copy_page\<close> copies one page to another. It faults when one of the two is not
  mapped.
\<close>

definition copy_page :: "config \<Rightarrow> nat \<Rightarrow> nat \<Rightarrow> (nat \<Rightarrow> page) \<Rightarrow> fatal + (nat \<Rightarrow> page)" where
  "copy_page c to from m =
     (if mapped c to \<and> mapped c from then Inr (m(to := m from)) else Inl Oops)"

text \<open>\<open>__get_free_pages\<close>, \<open>get_zeroed_page\<close>, \<open>free_pages\<close>.\<close>

definition get_free_pages :: "nat \<Rightarrow> kstate \<Rightarrow> nat \<times> kstate" where
  "get_free_pages order s =
     (case page_alloc s order of
        [] \<Rightarrow> (0, s)
      | a # rest \<Rightarrow> (a, s\<lparr>page_alloc := (page_alloc s)(order := rest)\<rparr>))"

definition get_zeroed_page :: "kstate \<Rightarrow> nat \<times> kstate" where
  "get_zeroed_page s =
     (case get_free_pages 0 s of
        (a, s') \<Rightarrow> if a \<noteq> 0 then (a, s'\<lparr>mem := (mem s')(a := zero_page)\<rparr>) else (a, s'))"

definition free_pages :: "nat \<Rightarrow> nat \<Rightarrow> kstate \<Rightarrow> kstate" where
  "free_pages a order s = s\<lparr>freed := freed s @ [(a, order)]\<rparr>"

definition drain_local_pages :: "kstate \<Rightarrow> kstate" where
  "drain_local_pages s =
     (case drained s of
        [] \<Rightarrow> s
      | h # rest \<Rightarrow> s\<lparr>free_region := h, drained := rest\<rparr>)"

text \<open>\<open>get_swap_page\<close> and \<open>rw_swap_page_sync\<close>.\<close>

definition get_swap_page :: "kstate \<Rightarrow> swp_entry_t \<times> kstate" where
  "get_swap_page s =
     (case swap_alloc s of
        [] \<Rightarrow> (swp_entry 0 0, s)
      | e # rest \<Rightarrow> (e, s\<lparr>swap_alloc := rest\<rparr>))"

definition swap_write :: "swp_entry_t \<Rightarrow> nat \<Rightarrow> kstate \<Rightarrow> kstate" where
  "swap_write e a s =
     s\<lparr>swap_pages := (swap_pages s)(swp_type e := (swap_pages s (swp_type e))(swp_offset e := mem s a)),
       io_log := io_log s @ [SwapWrite e (mem s a)]\<rparr>"

definition swap_read :: "swp_entry_t \<Rightarrow> nat \<Rightarrow> kstate \<Rightarrow> kstate" where
  "swap_read e a s =
     s\<lparr>mem := (mem s)(a := swap_pages s (swp_type e) (swp_offset e)),
       io_log := io_log s @ [SwapRead e]\<rparr>"

section \<open>Reading the image (resume side)\<close>

text \<open>
  \<open>does_collide_order\<close>: does the block of \<open>2 ^ order\<close> pages at \<open>addr\<close>
  hold the \<open>orig_address\<close> of a pbe? The loop \<open>for (i = 0; i < n; i++)\<close> is the
  recursion over \<open>[0..<n]\<close>, here and below.
\<close>

fun does_collide_loop :: "config \<Rightarrow> (nat \<Rightarrow> page) \<Rightarrow> nat \<Rightarrow> nat \<Rightarrow> nat \<Rightarrow> nat list \<Rightarrow> int" where
  "does_collide_loop c m pagedir addr addre [] = 0"
| "does_collide_loop c m pagedir addr addre (i # rest) =
     (if orig_address (pbe_at c m pagedir i) \<ge> addr \<and> orig_address (pbe_at c m pagedir i) < addre
      then 1
      else does_collide_loop c m pagedir addr addre rest)"

definition does_collide_order :: "config \<Rightarrow> kstate \<Rightarrow> nat \<Rightarrow> nat \<Rightarrow> nat \<Rightarrow> int" where
  "does_collide_order c s pagedir addr order =
     does_collide_loop c (mem s) pagedir addr (addr + PAGE_SIZE c * 2 ^ order) [0..<nr_copy_pages s]"

definition does_collide :: "config \<Rightarrow> kstate \<Rightarrow> nat \<Rightarrow> int" where
  "does_collide c s addr = does_collide_order c s (pagedir_nosave s) addr 0"

lemma get_free_pages_shorter:
  "get_free_pages order s = (a, s') \<Longrightarrow> a \<noteq> 0 \<Longrightarrow>
   length (page_alloc s' order) < length (page_alloc s order) \<and> pagedir_order s' = pagedir_order s"
  by (auto simp: get_free_pages_def split: list.splits)

lemma get_zeroed_page_shorter:
  "get_zeroed_page s = (a, s') \<Longrightarrow> a \<noteq> 0 \<Longrightarrow> length (page_alloc s' 0) < length (page_alloc s 0)"
  by (auto simp: get_zeroed_page_def get_free_pages_def split: list.splits prod.splits if_splits)

text \<open>
  \<open>check_pagedir\<close>. The inner loop \<open>do { addr = get_zeroed_page(); if (!addr) return
  -ENOMEM; } while (does_collide(addr))\<close> gives the address found, or 0.
\<close>

function check_pagedir_alloc :: "config \<Rightarrow> kstate \<Rightarrow> nat \<times> kstate" where
  "check_pagedir_alloc c s =
     (case get_zeroed_page s of
        (addr, s') \<Rightarrow>
          if addr = 0 then (0, s')
          else if does_collide c s' addr \<noteq> 0 then check_pagedir_alloc c s'
          else (addr, s'))"
  by pat_completeness auto
termination
  by (relation "measure (\<lambda>(c, s). length (page_alloc s 0))")
     (auto dest: get_zeroed_page_shorter [OF sym])

fun check_pagedir_loop :: "config \<Rightarrow> nat list \<Rightarrow> kstate \<Rightarrow> int \<times> kstate" where
  "check_pagedir_loop c [] s = (0, s)"
| "check_pagedir_loop c (i # rest) s =
     (case check_pagedir_alloc c s of
        (addr, s') \<Rightarrow>
          if addr = 0 then (- ENOMEM, s')
          else check_pagedir_loop c rest
                 (s'\<lparr>mem := pbe_update c (pagedir_nosave s') i (\<lambda>p. p\<lparr>address := addr\<rparr>) (mem s')\<rparr>))"

definition check_pagedir :: "config \<Rightarrow> kstate \<Rightarrow> int \<times> kstate" where
  "check_pagedir c s = check_pagedir_loop c [0..<nr_copy_pages s] s"

fun copy_pagedir_loop :: "config \<Rightarrow> nat \<Rightarrow> nat \<Rightarrow> nat list \<Rightarrow> (nat \<Rightarrow> page) \<Rightarrow> fatal + (nat \<Rightarrow> page)" where
  "copy_pagedir_loop c to from [] m = Inr m"
| "copy_pagedir_loop c to from (i # rest) m =
     (case copy_page c (to + i * PAGE_SIZE c) (from + i * PAGE_SIZE c) m of
        Inl f \<Rightarrow> Inl f
      | Inr m' \<Rightarrow> copy_pagedir_loop c to from rest m')"

definition copy_pagedir :: "config \<Rightarrow> nat \<Rightarrow> nat \<Rightarrow> kstate \<Rightarrow> fatal + kstate" where
  "copy_pagedir c to from s =
     (case copy_pagedir_loop c to from [0..<2 ^ pagedir_order s] (mem s) of
        Inl f \<Rightarrow> Inl f
      | Inr m \<Rightarrow> Inr (s\<lparr>mem := m\<rparr>))"

text \<open>
  \<open>relocate_pagedir\<close>. The first loop allocates blocks until one does not collide; the
  rejected blocks are chained through their first word (\<open>*eaten_memory = c\<close>). The
  model keeps the chain as a list, newest first, and the first page of each block as
  \<open>memset\<close> leaves it. The second loop walks the chain with \<open>c\<close> and frees
  \<open>f = *c\<close>, the block after \<open>c\<close>, when there is one.
\<close>

function relocate_alloc :: "config \<Rightarrow> nat \<Rightarrow> nat list \<Rightarrow> kstate \<Rightarrow> nat \<times> nat list \<times> kstate" where
  "relocate_alloc c old_pagedir eaten s =
     (case get_free_pages (pagedir_order s) s of
        (m, s') \<Rightarrow>
          if m = 0 then (0, eaten, s')
          else
            let s'' = s'\<lparr>mem := (mem s')(m := zero_page)\<rparr>
            in if does_collide_order c s'' old_pagedir m (pagedir_order s'') = 0
               then (m, eaten, s'')
               else relocate_alloc c old_pagedir (m # eaten) s'')"
  by pat_completeness auto
termination
  by (relation "measure (\<lambda>(c, old, eaten, s). length (page_alloc s (pagedir_order s)))")
     (auto dest: get_free_pages_shorter [OF sym])

fun free_eaten :: "nat list \<Rightarrow> kstate \<Rightarrow> kstate" where
  "free_eaten (c # f # rest) s = free_eaten (f # rest) (free_pages f (pagedir_order s) s)"
| "free_eaten chain s = s"

definition relocate_pagedir :: "config \<Rightarrow> kstate \<Rightarrow> fatal + (int \<times> kstate)" where
  "relocate_pagedir c s =
     (let old_pagedir = pagedir_nosave s
      in if does_collide_order c s old_pagedir old_pagedir (pagedir_order s) = 0 then Inr (0, s)
         else
           (case relocate_alloc c old_pagedir [] s of
              (m, eaten, s1) \<Rightarrow>
                if m = 0 then Inr (- ENOMEM, s1)
                else
                  (case copy_pagedir c m old_pagedir (s1\<lparr>pagedir_nosave := m\<rparr>) of
                     Inl f \<Rightarrow> Inl f
                   | Inr s2 \<Rightarrow> Inr (0, free_eaten eaten s2))))"

definition sanity_check :: "config \<Rightarrow> suspend_header \<Rightarrow> int" where
  "sanity_check c h =
     (if version_code h \<noteq> LINUX_VERSION_CODE c then - EPERM
      else if hdr_num_physpages h \<noteq> num_physpages c then - EPERM
      else if strncmp (machine h) (utsname_machine c) 8 \<noteq> 0 then - EPERM
      else if strncmp (version h) (utsname_version c) 20 \<noteq> 0 then - EPERM
      else if num_cpus h \<noteq> num_online_cpus c then - EPERM
      else if page_size h \<noteq> int (PAGE_SIZE c) then - EPERM
      else 0)"

text \<open>
  \<open>bdev_read_page\<close>: the block at byte position \<open>pos\<close> of the device, read into the
  page at \<open>buf\<close>. A block the device cannot deliver is the failure of \<open>__bread\<close>.
\<close>

definition bdev_read_page :: "config \<Rightarrow> block_device \<Rightarrow> nat \<Rightarrow> nat \<Rightarrow> kstate \<Rightarrow> fatal + (int \<times> kstate)" where
  "bdev_read_page c bdev pos buf s =
     (if pos mod PAGE_SIZE c \<noteq> 0 then Inl BUG
      else
        (case bdev (pos div PAGE_SIZE c) of
           None \<Rightarrow> Inr (- 1, s\<lparr>io_log := io_log s @ [BdevRead (pos div PAGE_SIZE c)]\<rparr>)
         | Some p \<Rightarrow>
             Inr (0, s\<lparr>mem := (mem s)(buf := p),
                       io_log := io_log s @ [BdevRead (pos div PAGE_SIZE c)]\<rparr>)))"

text \<open>\<open>PREPARENEXT\<close>: the byte position of the slot the link of the page names.\<close>

definition PREPARENEXT :: "config \<Rightarrow> page \<Rightarrow> nat" where
  "PREPARENEXT c pg = swp_offset (link_next pg) * PAGE_SIZE c"

text \<open>
  The loop \<open>for (i = nr_pgdir_pages - 1; i >= 0; i--)\<close> of \<open>read_suspend_image\<close>:
  the first argument is \<open>i + 1\<close>. It gives the error, if any, and the position the
  last link read names.
\<close>

fun read_pagedir_loop :: "config \<Rightarrow> block_device \<Rightarrow> nat \<Rightarrow> nat \<Rightarrow> kstate \<Rightarrow> fatal + (int \<times> nat \<times> kstate)" where
  "read_pagedir_loop c bdev 0 nxt s = Inr (0, nxt, s)"
| "read_pagedir_loop c bdev (Suc i) nxt s =
     (if nxt = 0 then Inl BUG
      else
        let cur = pagedir_nosave s + i * PAGE_SIZE c
        in (case bdev_read_page c bdev nxt cur s of
              Inl f \<Rightarrow> Inl f
            | Inr (r, s') \<Rightarrow>
                if r \<noteq> 0 then Inr (- EIO, nxt, s')
                else read_pagedir_loop c bdev i (PREPARENEXT c (mem s' cur)) s'))"

fun read_data_loop :: "config \<Rightarrow> block_device \<Rightarrow> nat list \<Rightarrow> kstate \<Rightarrow> fatal + (int \<times> kstate)" where
  "read_data_loop c bdev [] s = Inr (0, s)"
| "read_data_loop c bdev (i # rest) s =
     (let p = pbe_at c (mem s) (pagedir_nosave s) i
      in (case bdev_read_page c bdev (swp_offset (swap_address p) * PAGE_SIZE c) (address p) s of
            Inl f \<Rightarrow> Inl f
          | Inr (r, s') \<Rightarrow>
              if r \<noteq> 0 then Inr (- EIO, s')
              else read_data_loop c bdev rest s'))"

text \<open>
  \<open>read_suspend_image\<close>, in three parts: from the header on
  (\<open>read_image_pagedir\<close>), and from the relocation on (\<open>read_image_data\<close>).
\<close>

definition read_image_data :: "config \<Rightarrow> block_device \<Rightarrow> kstate \<Rightarrow> fatal + (int \<times> kstate)" where
  "read_image_data c bdev s =
     (case relocate_pagedir c s of
        Inl f \<Rightarrow> Inl f
      | Inr (r1, s1) \<Rightarrow>
          if r1 \<noteq> 0 then Inr (- ENOMEM, s1)
          else
            (case check_pagedir c s1 of
               (r2, s2) \<Rightarrow>
                 if r2 \<noteq> 0 then Inr (- ENOMEM, s2)
                 else read_data_loop c bdev [0..<nr_copy_pages s2] s2))"

definition read_image_pagedir :: "config \<Rightarrow> block_device \<Rightarrow> nat \<Rightarrow> kstate \<Rightarrow> fatal + (int \<times> kstate)" where
  "read_image_pagedir c bdev cur s =
     (let nxt = PREPARENEXT c (mem s cur);
          s1 = s\<lparr>pagedir_save := suspend_pagedir (sh (mem s cur)),
                 nr_copy_pages := num_pbes (sh (mem s cur))\<rparr>;
          nr_pgdir_pages = SUSPEND_PD_PAGES c (nr_copy_pages s1);
          s2 = s1\<lparr>pagedir_order := get_bitmask_order c nr_pgdir_pages\<rparr>
      in (case get_free_pages (pagedir_order s2) s2 of
            (pd, s3) \<Rightarrow>
              let s4 = s3\<lparr>pagedir_nosave := pd\<rparr>
              in if pd = 0 then Inr (- ENOMEM, s4)
                 else
                   (case read_pagedir_loop c bdev nr_pgdir_pages nxt s4 of
                      Inl f \<Rightarrow> Inl f
                    | Inr (r, nxt', s5) \<Rightarrow>
                        if r \<noteq> 0 then Inr (r, s5)
                        else if nxt' \<noteq> 0 then Inl BUG
                        else read_image_data c bdev s5)))"

definition read_suspend_image :: "config \<Rightarrow> block_device \<Rightarrow> nat \<Rightarrow> kstate \<Rightarrow> fatal + (int \<times> kstate)" where
  "read_suspend_image c bdev cur s =
     (case bdev_read_page c bdev 0 cur s of
        Inl f \<Rightarrow> Inl f
      | Inr (r, s1) \<Rightarrow>
          if r \<noteq> 0 then Inr (- EIO, s1)
          else if memcmp ''SWAP-SPACE'' (magic (mem s1 cur)) 10 = 0
                  \<or> memcmp ''SWAPSPACE2'' (magic (mem s1 cur)) 10 = 0
          then Inr (- EINVAL, s1)
          else
            let nxt = PREPARENEXT c (mem s1 cur)
            in if memcmp ''S1'' (magic (mem s1 cur)) 2 \<noteq> 0 \<and> memcmp ''S2'' (magic (mem s1 cur)) 2 \<noteq> 0
               then Inr (- EFAULT, s1)
               else
                 let s2 = s1\<lparr>mem := (mem s1)(cur := (mem s1 cur)\<lparr>magic :=
                            (if memcmp ''S1'' (magic (mem s1 cur)) 2 = 0
                             then memcpy (magic (mem s1 cur)) ''SWAP-SPACE'' 10
                             else memcpy (magic (mem s1 cur)) ''SWAPSPACE2'' 10)\<rparr>)\<rparr>
                 in (case bdev_read_page c bdev nxt cur s2 of
                       Inl f \<Rightarrow> Inl f
                     | Inr (r', s3) \<Rightarrow>
                         if r' \<noteq> 0 then Inr (- EIO, s3)
                         else if sanity_check c (sh (mem s3 cur)) \<noteq> 0 then Inr (- EPERM, s3)
                         else read_image_pagedir c bdev cur s3))"

text \<open>
  \<open>swsusp_read\<close>. \<open>open_by_devnum\<close> gives the device or an error pointer;
  \<open>blkdev_put\<close> releases it.
\<close>

definition swsusp_read :: "config \<Rightarrow> kstate \<Rightarrow> fatal + (int \<times> kstate)" where
  "swsusp_read c s =
     (if strlen (resume_file s) = 0 then Inr (- ENOENT, s)
      else
        let s1 = s\<lparr>resume_device := name_to_dev_t c (resume_file s)\<rparr>
        in (case get_zeroed_page s1 of
              (cur, s2) \<Rightarrow>
                if cur \<noteq> 0 then
                  (case block_devices s2 (resume_device s2) of
                     Inr bdev \<Rightarrow>
                       (case read_suspend_image c bdev cur
                               (s2\<lparr>io_log := io_log s2 @ [BdevOpen (resume_device s2)]\<rparr>) of
                          Inl f \<Rightarrow> Inl f
                        | Inr (error, s3) \<Rightarrow>
                            Inr (error, free_pages cur 0 (s3\<lparr>io_log := io_log s3 @ [BdevPut]\<rparr>)))
                   | Inl err \<Rightarrow> Inr (err, free_pages cur 0 s2))
                else Inr (- ENOMEM, s2)))"

definition resume_setup :: "string \<Rightarrow> kstate \<Rightarrow> kstate" where
  "resume_setup str s =
     (if strlen str \<noteq> 0 then s\<lparr>resume_file := strncpy (resume_file s) str 255\<rparr> else s)"

definition noresume_setup :: "string \<Rightarrow> kstate \<Rightarrow> kstate" where
  "noresume_setup str s = s\<lparr>resume_file := (resume_file s)[0 := NUL]\<rparr>"

section \<open>Saving the image (suspend side)\<close>

definition fill_suspend_header :: "config \<Rightarrow> kstate \<Rightarrow> fatal + suspend_header" where
  "fill_suspend_header c s =
     (let h = zero_header
        \<lparr>version_code := LINUX_VERSION_CODE c,
         hdr_num_physpages := num_physpages c,
         machine := strncpy (machine zero_header) (utsname_machine c) 8,
         version := strncpy (version zero_header) (utsname_version c) 20,
         num_cpus := num_online_cpus c,
         page_size := int (PAGE_SIZE c),
         suspend_pagedir := pagedir_nosave s\<rparr>
      in if pagedir_save s \<noteq> pagedir_nosave s then Inl BUG
         else Inr (h\<lparr>num_pbes := nr_copy_pages s\<rparr>))"

text \<open>
  \<open>mark_swapfiles\<close>: the first page of the suspend device is read, its signature is
  changed and it is written back. In the mode \<open>MARK_SWAP_RESUME\<close> a page without a
  suspend signature is written back as it was read.
\<close>

definition mark_swapfiles :: "swp_entry_t \<Rightarrow> int \<Rightarrow> kstate \<Rightarrow> fatal + kstate" where
  "mark_swapfiles prev mode s =
     (if root_swap s = 0xFFFF then Inr s
      else
        (case get_free_pages 0 s of
           (cur, s1) \<Rightarrow>
             if cur = 0 then Inl (Panic ''Out of memory in mark_swapfiles'')
             else
               let entry = swp_entry (root_swap s1) 0;
                   s2 = swap_read entry cur s1;
                   pg = mem s2 cur;
                   finish = (\<lambda>pg'. Inr (free_pages cur 0
                               (swap_write entry cur (s2\<lparr>mem := (mem s2)(cur := pg')\<rparr>))))
               in if mode = MARK_SWAP_RESUME then
                    (if memcmp ''S1'' (magic pg) 2 = 0
                     then finish (pg\<lparr>magic := memcpy (magic pg) ''SWAP-SPACE'' 10\<rparr>)
                     else if memcmp ''S2'' (magic pg) 2 = 0
                     then finish (pg\<lparr>magic := memcpy (magic pg) ''SWAPSPACE2'' 10\<rparr>)
                     else finish pg)
                  else
                    (if memcmp ''SWAP-SPACE'' (magic pg) 10 = 0
                     then finish (pg\<lparr>magic := memcpy (magic pg) ''S1SUSP....'' 10, link_next := prev\<rparr>)
                     else if memcmp ''SWAPSPACE2'' (magic pg) 10 = 0
                     then finish (pg\<lparr>magic := memcpy (magic pg) ''S2SUSP....'' 10, link_next := prev\<rparr>)
                     else Inl (Panic ''Swapspace is not swapspace''))))"

definition read_swapfiles_step :: "nat \<Rightarrow> nat \<Rightarrow> kstate \<Rightarrow> kstate" where
  "read_swapfiles_step len i s =
     (if swap_flags s i = 0 then s\<lparr>swapfile_used := (swapfile_used s)(i := SWAPFILE_UNUSED)\<rparr>
      else if len = 0 then
        (if root_swap s = 0xFFFF
         then s\<lparr>swapfile_used := (swapfile_used s)(i := SWAPFILE_SUSPEND), root_swap := i\<rparr>
         else s\<lparr>swapfile_used := (swapfile_used s)(i := SWAPFILE_IGNORED)\<rparr>)
      else s\<lparr>swapfile_used := (swapfile_used s)(i := SWAPFILE_SUSPEND), root_swap := i\<rparr>)"

definition read_swapfiles :: "config \<Rightarrow> kstate \<Rightarrow> kstate" where
  "read_swapfiles c s =
     fold (read_swapfiles_step (strlen (resume_file s))) [0..<MAX_SWAPFILES c]
       (s\<lparr>root_swap := 0xFFFF\<rparr>)"

definition lock_swapdevices :: "config \<Rightarrow> kstate \<Rightarrow> kstate" where
  "lock_swapdevices c s =
     fold (\<lambda>i s. if swapfile_used s i = SWAPFILE_IGNORED
                  then s\<lparr>swap_flags := (swap_flags s)(i := swap_flags s i XOR 0xFF)\<rparr>
                  else s)
       [0..<MAX_SWAPFILES c] s"

text \<open>
  \<open>write_suspend_image\<close>: the data pages, the pages of the page directory, the header
  and the signature. The \<open>BUG_ON\<close>s on \<open>sizeof\<close> compare constants of the build
  and are left out.
\<close>

fun write_data_loop :: "config \<Rightarrow> nat list \<Rightarrow> kstate \<Rightarrow> fatal + kstate" where
  "write_data_loop c [] s = Inr s"
| "write_data_loop c (i # rest) s =
     (case get_swap_page s of
        (entry, s1) \<Rightarrow>
          if val_is_zero entry then Inl (Panic ''Not enough swapspace when writing data'')
          else if swapfile_used s1 (swp_type entry) \<noteq> SWAPFILE_SUSPEND
          then Inl (Panic ''not enough swapspace on suspend device'')
          else
            let a = address (pbe_at c (mem s1) (pagedir_nosave s1) i);
                s2 = swap_write entry a s1
            in write_data_loop c rest
                 (s2\<lparr>mem := pbe_update c (pagedir_nosave s2) i (\<lambda>p. p\<lparr>swap_address := entry\<rparr>) (mem s2)\<rparr>))"

fun write_pagedir_loop :: "config \<Rightarrow> nat list \<Rightarrow> swp_entry_t \<Rightarrow> kstate \<Rightarrow> fatal + (swp_entry_t \<times> kstate)" where
  "write_pagedir_loop c [] prev s = Inr (prev, s)"
| "write_pagedir_loop c (i # rest) prev s =
     (let cur = pagedir_nosave s + i * PAGE_SIZE c
      in (case get_swap_page s of
            (entry, s1) \<Rightarrow>
              if val_is_zero entry then Inl (Panic ''Don't know how to recover'')
              else if swapfile_used s1 (swp_type entry) \<noteq> SWAPFILE_SUSPEND
              then Inl (Panic ''Not enough swapspace for pagedir on suspend device'')
              else
                let s2 = s1\<lparr>mem := (mem s1)(cur := (mem s1 cur)\<lparr>link_next := prev\<rparr>)\<rparr>
                in write_pagedir_loop c rest entry (swap_write entry cur s2)))"

definition write_suspend_image :: "config \<Rightarrow> kstate \<Rightarrow> fatal + (int \<times> kstate)" where
  "write_suspend_image c s =
     (let nr_pgdir_pages = SUSPEND_PD_PAGES c (nr_copy_pages s)
      in (case get_zeroed_page s of
            (buffer, s0) \<Rightarrow>
              (case write_data_loop c [0..<nr_copy_pages s0] s0 of
                 Inl f \<Rightarrow> Inl f
               | Inr s1 \<Rightarrow>
                   (case write_pagedir_loop c [0..<nr_pgdir_pages] (swp_entry 0 0) s1 of
                      Inl f \<Rightarrow> Inl f
                    | Inr (prev, s2) \<Rightarrow>
                        (case get_swap_page s2 of
                           (entry, s3) \<Rightarrow>
                             if val_is_zero entry
                             then Inl (Panic ''Not enough swapspace when writing header'')
                             else if swapfile_used s3 (swp_type entry) \<noteq> SWAPFILE_SUSPEND
                             then Inl (Panic ''Not enough swapspace for header on suspend device'')
                             else if buffer = 0 then Inl Oops
                             else
                               (case fill_suspend_header c s3 of
                                  Inl f \<Rightarrow> Inl f
                                | Inr h \<Rightarrow>
                                    let s4 = s3\<lparr>mem := (mem s3)(buffer :=
                                               (mem s3 buffer)\<lparr>sh := h, link_next := prev\<rparr>)\<rparr>;
                                        s5 = swap_write entry buffer s4
                                    in (case mark_swapfiles entry MARK_SWAP_SUSPEND s5 of
                                          Inl f \<Rightarrow> Inl f
                                        | Inr s6 \<Rightarrow> Inr (0, free_pages buffer 0 s6))))))))"

text \<open>
  \<open>count_and_copy_data_pages\<close>. The walk over the frames: \<open>pfn\<close> is the frame,
  \<open>nr\<close> the pages counted so far, which is also the index of the pbe that
  \<open>pagedir_p\<close> points to. A frame that heads a free region is skipped with its region.
  The walk has no bound on \<open>pagedir_p\<close>: \<open>copy_data_page\<close> stores through the pbe
  it is at and copies to the address found there, whatever they are, and faults when one
  of them is not mapped.
\<close>

definition copy_data_page :: "config \<Rightarrow> nat \<Rightarrow> nat \<Rightarrow> nat \<Rightarrow> kstate \<Rightarrow> fatal + kstate" where
  "copy_data_page c pagedir k pfn s =
     (if \<not> mapped c (pbe_page c pagedir k) then Inl Oops
      else
        let m1 = pbe_update c pagedir k (\<lambda>p. p\<lparr>orig_address := ADDRESS c pfn\<rparr>) (mem s);
            p = pbe_at c m1 pagedir k
        in (case copy_page c (address p) (orig_address p) m1 of
              Inl f \<Rightarrow> Inl f
            | Inr m2 \<Rightarrow> Inr (s\<lparr>mem := m2\<rparr>)))"

definition count_page :: "config \<Rightarrow> nat option \<Rightarrow> nat \<Rightarrow> nat \<Rightarrow> kstate \<Rightarrow> fatal + kstate" where
  "count_page c pagedir_p nr pfn s =
     (case pagedir_p of None \<Rightarrow> Inr s | Some pagedir \<Rightarrow> copy_data_page c pagedir nr pfn s)"

function count_and_copy_loop :: "config \<Rightarrow> nat option \<Rightarrow> nat \<Rightarrow> nat \<Rightarrow> kstate \<Rightarrow> fatal + (nat \<times> kstate)" where
  "count_and_copy_loop c pagedir_p pfn nr s =
     (if pfn < max_pfn c then
        (if \<not> PageReserved s pfn then
           (if PageNosave s pfn then count_and_copy_loop c pagedir_p (Suc pfn) nr s
            else if free_region s pfn \<noteq> 0
            then count_and_copy_loop c pagedir_p (Suc (pfn + (free_region s pfn - 1))) nr s
            else
              (case count_page c pagedir_p nr pfn s of
                 Inl f \<Rightarrow> Inl f
               | Inr s1 \<Rightarrow> count_and_copy_loop c pagedir_p (Suc pfn) (Suc nr) s1))
         else
           (if PageNosave s pfn then Inl BUG
            else if ADDRESS c pfn \<ge> nosave_begin c \<and> ADDRESS c pfn < nosave_end c
            then count_and_copy_loop c pagedir_p (Suc pfn) nr s
            else
              (case count_page c pagedir_p nr pfn s of
                 Inl f \<Rightarrow> Inl f
               | Inr s1 \<Rightarrow> count_and_copy_loop c pagedir_p (Suc pfn) (Suc nr) s1)))
      else Inr (nr, s))"
  by pat_completeness auto
termination
  by (relation "measure (\<lambda>(c, pagedir_p, pfn, nr, s). max_pfn c - pfn)") auto

declare count_and_copy_loop.simps [simp del]

definition count_and_copy_data_pages :: "config \<Rightarrow> nat option \<Rightarrow> kstate \<Rightarrow> fatal + (nat \<times> kstate)" where
  "count_and_copy_data_pages c pagedir_p s =
     (if max_pfn c \<noteq> num_physpages c then Inl BUG
      else count_and_copy_loop c pagedir_p 0 0 s)"

definition SetPageNosave :: "nat \<Rightarrow> kstate \<Rightarrow> kstate" where
  "SetPageNosave pfn s = s\<lparr>PageNosave := (PageNosave s)(pfn := True)\<rparr>"

definition free_suspend_pagedir_step :: "config \<Rightarrow> nat \<Rightarrow> nat \<Rightarrow> nat \<Rightarrow> kstate \<Rightarrow> kstate" where
  "free_suspend_pagedir_step c this_pagedir this_pagedir_end pfn s =
     (if \<not> PageNosave s pfn then s
      else
        let s1 = s\<lparr>PageNosave := (PageNosave s)(pfn := False)\<rparr>
        in if ADDRESS c pfn \<ge> this_pagedir \<and> ADDRESS c pfn < this_pagedir_end then s1
           else free_pages (ADDRESS c pfn) 0 s1)"

definition free_suspend_pagedir :: "config \<Rightarrow> nat \<Rightarrow> kstate \<Rightarrow> kstate" where
  "free_suspend_pagedir c this_pagedir s =
     (let this_pagedir_end = this_pagedir + PAGE_SIZE c * 2 ^ pagedir_order s;
          s1 = fold (free_suspend_pagedir_step c this_pagedir this_pagedir_end)
                 [0..<num_physpages c] s
      in free_pages this_pagedir (pagedir_order s1) s1)"

text \<open>
  \<open>create_suspend_pagedir\<close>: the loop \<open>while (nr_copy_pages--)\<close> with \<open>p\<close> at
  the pbe \<open>k\<close>. It gives the page directory, or 0.
\<close>

fun create_pagedir_loop :: "config \<Rightarrow> nat \<Rightarrow> nat list \<Rightarrow> kstate \<Rightarrow> nat \<times> kstate" where
  "create_pagedir_loop c pagedir [] s = (pagedir, s)"
| "create_pagedir_loop c pagedir (k # rest) s =
     (case get_zeroed_page s of
        (a, s1) \<Rightarrow>
          let s2 = s1\<lparr>mem := pbe_update c pagedir k (\<lambda>p. p\<lparr>address := a\<rparr>) (mem s1)\<rparr>
          in if a = 0 then (0, free_suspend_pagedir c pagedir s2)
             else
               let s3 = SetPageNosave (virt_to_pfn c a) s2
               in create_pagedir_loop c pagedir rest
                    (s3\<lparr>mem := pbe_update c pagedir k (\<lambda>p. p\<lparr>orig_address := 0\<rparr>) (mem s3)\<rparr>))"

definition create_suspend_pagedir :: "config \<Rightarrow> nat \<Rightarrow> kstate \<Rightarrow> nat \<times> kstate" where
  "create_suspend_pagedir c n s =
     (let s1 = s\<lparr>pagedir_order := get_bitmask_order c (SUSPEND_PD_PAGES c n)\<rparr>
      in (case get_free_pages (pagedir_order s1) s1 of
            (pagedir, s2) \<Rightarrow>
              if pagedir = 0 then (0, s2)
              else
                let s3 = fold (\<lambda>i. SetPageNosave (virt_to_pfn c pagedir + i))
                           [0..<2 ^ pagedir_order s2] s2
                in create_pagedir_loop c pagedir [0..<n] s3))"

text \<open>
  \<open>suspend_prepare_image\<close>. \<open>nr_needed_pages\<close> is an \<open>unsigned int\<close>.
\<close>

definition suspend_prepare_image :: "config \<Rightarrow> kstate \<Rightarrow> fatal + (int \<times> kstate)" where
  "suspend_prepare_image c s =
     (let s1 = (drain_local_pages s)\<lparr>pagedir_nosave := 0\<rparr>
      in (case count_and_copy_data_pages c None s1 of
            Inl f \<Rightarrow> Inl f
          | Inr (n, s2) \<Rightarrow>
              let s3 = s2\<lparr>nr_copy_pages := n\<rparr>;
                  nr_needed_pages = (nr_copy_pages s3 + PAGES_FOR_IO) mod 2 ^ 32
              in if nr_free_pages s3 < nr_needed_pages then Inr (1, s3\<lparr>root_swap := 0xFFFF\<rparr>)
                 else if freeswap s3 < nr_needed_pages then Inr (1, s3)
                 else
                   (case create_suspend_pagedir c (nr_copy_pages s3) s3 of
                      (pd, s4) \<Rightarrow>
                        let s5 = s4\<lparr>pagedir_save := pd, pagedir_nosave := pd\<rparr>
                        in if pagedir_nosave s5 = 0 then Inl (Panic ''Really should not happen'')
                           else
                             let s6 = drain_local_pages
                                        (s5\<lparr>nr_copy_pages_check := nr_copy_pages s5,
                                            pagedir_order_check := pagedir_order s5\<rparr>)
                             in (case count_and_copy_data_pages c (Some (pagedir_nosave s6)) s6 of
                                   Inl f \<Rightarrow> Inl f
                                 | Inr (n', s7) \<Rightarrow>
                                     if nr_copy_pages s7 \<noteq> n' then Inl BUG else Inr (0, s7)))))"

definition suspend_save_image :: "config \<Rightarrow> kstate \<Rightarrow> fatal + (int \<times> kstate)" where
  "suspend_save_image c s =
     (case write_suspend_image c (lock_swapdevices c s) of
        Inl f \<Rightarrow> Inl f
      | Inr (error, s1) \<Rightarrow> Inr (error, lock_swapdevices c s1))"

definition swsusp_suspend :: "config \<Rightarrow> kstate \<Rightarrow> fatal + (int \<times> kstate)" where
  "swsusp_suspend c s =
     (case suspend_prepare_image c (read_swapfiles c s) of
        Inl f \<Rightarrow> Inl f
      | Inr (error, s1) \<Rightarrow> if error = 0 then suspend_save_image c s1 else Inr (error, s1))"

definition swsusp_resume :: "kstate \<Rightarrow> fatal + int" where
  "swsusp_resume s =
     (if nr_copy_pages_check s \<noteq> nr_copy_pages s then Inl BUG
      else if pagedir_order_check s \<noteq> pagedir_order s then Inl BUG
      else Inr 0)"

definition swsusp_free :: "config \<Rightarrow> kstate \<Rightarrow> fatal + (int \<times> kstate)" where
  "swsusp_free c s =
     (case mark_swapfiles (swp_entry 0 0) MARK_SWAP_RESUME (free_suspend_pagedir c (pagedir_save s) s) of
        Inl f \<Rightarrow> Inl f
      | Inr s1 \<Rightarrow> Inr (0, s1))"

section \<open>Notions used in the statements, and example systems\<close>

text \<open>
  The string a fixed-width field holds: the bytes before the first NUL among its first
  \<open>n\<close> bytes. The result of a call, without the state.
\<close>

definition cstring :: "nat \<Rightarrow> string \<Rightarrow> string" where
  "cstring n s = takeWhile (\<lambda>x. x \<noteq> NUL) (take n s)"

definition result_of :: "fatal + (int \<times> kstate) \<Rightarrow> fatal + int" where
  "result_of r = map_sum id fst r"

text \<open>
  An i386 system with 1024 page frames: pages of 4096 bytes, pbes of 16 bytes,
  \<open>SUSPEND_PD_PAGES(x) = x * sizeof(struct pbe) / PAGE_SIZE + 1\<close>, and
  \<open>get_bitmask_order\<close> the position of the highest bit set. The kernel has the page
  frames mapped from \<open>PAGE_OFFSET\<close> on, and nothing else.
\<close>

fun fls :: "nat \<Rightarrow> nat" where
  "fls n = (if n = 0 then 0 else Suc (fls (n div 2)))"

declare fls.simps [simp del]

definition example_config :: config where
  "example_config =
     \<lparr>PAGE_SIZE = 4096, PAGE_OFFSET = 0xC0000000, PBES_PER_PAGE = 256,
      SUSPEND_PD_PAGES = (\<lambda>x. x * 16 div 4096 + 1), get_bitmask_order = fls,
      LINUX_VERSION_CODE = 132608, num_physpages = 1024, max_pfn = 1024,
      utsname_machine = ''i686'', utsname_version = ''#1 Thu Dec 18 2003'',
      num_online_cpus = 1, nosave_begin = 0xC0001000, nosave_end = 0xC0002000,
      MAX_SWAPFILES = 32, name_to_dev_t = (\<lambda>_. 770),
      mapped = (\<lambda>a. 0xC0000000 \<le> a \<and> a < 0xC0400000)\<rparr>"

definition example_state :: kstate where
  "example_state =
     \<lparr>mem = (\<lambda>_. zero_page), page_alloc = (\<lambda>_. []), freed = [],
      PageReserved = (\<lambda>_. False), PageNosave = (\<lambda>_. False),
      free_region = (\<lambda>_. 0), drained = [], nr_free_pages = 0, freeswap = 0,
      swap_alloc = [], swap_pages = (\<lambda>_ _. zero_page), swap_flags = (\<lambda>_. 0),
      block_devices = (\<lambda>_. Inl (- 6)), io_log = [], swapfile_used = (\<lambda>_. 0),
      root_swap = 0, resume_file = replicate 256 NUL, resume_device = 0,
      nr_copy_pages = 0, pagedir_nosave = 0, pagedir_save = 0, pagedir_order = 0,
      nr_copy_pages_check = 0, pagedir_order_check = 0\<rparr>"

text \<open>A device that holds plain swap space, and a system told to resume from it.\<close>

definition normal_swap_device :: block_device where
  "normal_swap_device = (\<lambda>b. if b = 0 then Some (zero_page\<lparr>magic := ''SWAP-SPACE''\<rparr>) else None)"

definition normal_swap_state :: kstate where
  "normal_swap_state =
     example_state\<lparr>resume_file := strncpy (replicate 256 NUL) ''/dev/hda2'' 255,
                   page_alloc := (\<lambda>_. [0xC0005000]),
                   block_devices := (\<lambda>d. if d = 770 then Inr normal_swap_device else Inl (- 6))\<rparr>"

text \<open>
  The header the example system writes, and a device with an image whose header, in
  slot 3, differs from it in the version code only.
\<close>

definition example_header :: suspend_header where
  "example_header =
     \<lparr>version_code = 132608, hdr_num_physpages = 1024,
      machine = ''i686'' @ replicate 4 NUL,
      version = ''#1 Thu Dec 18 2003'' @ replicate 2 NUL,
      num_cpus = 1, page_size = 4096, suspend_pagedir = 0, num_pbes = 0\<rparr>"

definition other_version_device :: block_device where
  "other_version_device =
     (\<lambda>b. if b = 0 then Some (zero_page\<lparr>magic := ''S1SUSP....'', link_next := swp_entry 0 3\<rparr>)
          else if b = 3 then Some (zero_page\<lparr>sh := example_header\<lparr>version_code := 132609\<rparr>\<rparr>)
          else None)"

text \<open>
  The count a walk over the frames returns, without the state. The \<open>orig_address\<close>
  values of the first \<open>n\<close> pbes of a page directory. A page directory whose first
  \<open>N\<close> pbes have their copies outside the pages of the directory itself.
\<close>

definition count_of :: "fatal + (nat \<times> kstate) \<Rightarrow> fatal + nat" where
  "count_of r = map_sum id fst r"

definition pagedir_origs :: "config \<Rightarrow> (nat \<Rightarrow> page) \<Rightarrow> nat \<Rightarrow> nat \<Rightarrow> nat list" where
  "pagedir_origs c m pd n = map (\<lambda>j. orig_address (pbe_at c m pd j)) [0..<n]"

definition buffers_apart :: "config \<Rightarrow> (nat \<Rightarrow> page) \<Rightarrow> nat \<Rightarrow> nat \<Rightarrow> bool" where
  "buffers_apart c m pd N = (\<forall>k<N. \<forall>j<N. address (pbe_at c m pd k) \<noteq> pbe_page c pd j)"

text \<open>
  What holds during the copying walk, before frame \<open>pfn\<close> with \<open>nr\<close> pages
  copied: the recorded addresses increase and lie below the address of the frame.
\<close>

definition walk_inv :: "config \<Rightarrow> nat \<Rightarrow> nat \<Rightarrow> nat \<Rightarrow> nat \<Rightarrow> (nat \<Rightarrow> page) \<Rightarrow> bool" where
  "walk_inv c pd N pfn nr m =
     (buffers_apart c m pd N \<and> sorted_wrt (<) (pagedir_origs c m pd nr)
      \<and> (\<forall>x \<in> set (pagedir_origs c m pd nr). x < ADDRESS c pfn))"

text \<open>
  A frame lies in a free region when a frame at or below it heads a region that reaches
  it. The free regions are well formed when no reserved frame and no nosave frame heads
  one, and no region begins inside another. \<open>saved_frame\<close> tells the frames that are to
  be saved: the ones outside the free regions that are not nosave and, when reserved, not
  in the nosave section.
\<close>

definition in_free_region :: "kstate \<Rightarrow> nat \<Rightarrow> bool" where
  "in_free_region s pfn = (\<exists>h \<in> {0..pfn}. pfn < h + free_region s h)"

definition free_regions_wf :: "config \<Rightarrow> kstate \<Rightarrow> bool" where
  "free_regions_wf c s =
     (\<forall>h \<in> {0..<max_pfn c}. free_region s h \<noteq> 0 \<longrightarrow>
        \<not> PageReserved s h \<and> \<not> PageNosave s h
        \<and> (\<forall>p \<in> {h<..<h + free_region s h}. free_region s p = 0))"

definition saved_frame :: "config \<Rightarrow> kstate \<Rightarrow> nat \<Rightarrow> bool" where
  "saved_frame c s pfn =
     (\<not> in_free_region s pfn \<and> \<not> PageNosave s pfn
      \<and> (PageReserved s pfn \<longrightarrow>
            \<not> (ADDRESS c pfn \<ge> nosave_begin c \<and> ADDRESS c pfn < nosave_end c)))"

text \<open>
  Between the state \<open>s\<close> of the first walk and the state \<open>t\<close> of the second, pages
  were taken from the free regions for the snapshot and for nothing else: a frame that
  has become nosave was in a free region, and every other frame is in a free region of
  \<open>t\<close> exactly when it was in one of \<open>s\<close>.
\<close>

definition taken_from_free :: "config \<Rightarrow> kstate \<Rightarrow> kstate \<Rightarrow> bool" where
  "taken_from_free c s t =
     (\<forall>p \<in> {0..<max_pfn c}.
        if PageNosave t p \<and> \<not> PageNosave s p then in_free_region s p
        else in_free_region t p = in_free_region s p)"

text \<open>
  The example system about to suspend: frames 0 and 1 are reserved (frame 1 is the nosave
  section), frames 2 and 3 are in use, the rest is free, in blocks as the buddy allocator
  keeps them. The allocator will hand out frames 4 and 5 for the page directory and frames
  6 to 8 for the copies; \<open>free_heads_after\<close> are the free blocks left then.
  In \<open>disturbed_state\<close> frame 3 is freed by someone else between the two walks, and in
  \<open>crowded_state\<close> frame 9 is taken by someone else.
  \<open>prepared_state\<close> is the system with the page directory allocated.
\<close>

definition free_heads_before :: "nat \<Rightarrow> nat" where
  "free_heads_before pfn = (if pfn \<in> set [4, 8, 16, 32, 64, 128, 256, 512] then pfn else 0)"

definition free_heads_after :: "nat \<Rightarrow> nat" where
  "free_heads_after pfn =
     (if pfn = 9 then 1 else if pfn = 10 then 2 else if pfn = 12 then 4
      else if pfn \<in> set [16, 32, 64, 128, 256, 512] then pfn else 0)"

definition free_heads_disturbed :: "nat \<Rightarrow> nat" where
  "free_heads_disturbed pfn = (if pfn = 3 then 1 else free_heads_after pfn)"

definition free_heads_crowded :: "nat \<Rightarrow> nat" where
  "free_heads_crowded pfn = (if pfn = 9 then 0 else free_heads_after pfn)"

definition suspend_state :: kstate where
  "suspend_state =
     example_state
       \<lparr>mem := (\<lambda>a. zero_page\<lparr>payload := a\<rparr>),
        page_alloc := (\<lambda>order. if order = 0 then [0xC0006000, 0xC0007000, 0xC0008000]
                               else if order = 1 then [0xC0004000] else []),
        PageReserved := (\<lambda>pfn. pfn < 2),
        free_region := free_heads_before,
        drained := [free_heads_before, free_heads_after],
        nr_free_pages := 1020, freeswap := 2000\<rparr>"

definition disturbed_state :: kstate where
  "disturbed_state = suspend_state\<lparr>drained := [free_heads_before, free_heads_disturbed]\<rparr>"

definition crowded_state :: kstate where
  "crowded_state = suspend_state\<lparr>drained := [free_heads_before, free_heads_crowded]\<rparr>"

definition prepared_state :: kstate where
  "prepared_state =
     suspend_state
       \<lparr>mem := (mem suspend_state)
                 (0xC0004000 := zero_page\<lparr>pbes := (\<lambda>k. zero_pbe\<lparr>address := 0xC0006000 + k * 4096\<rparr>)\<rparr>),
        page_alloc := (\<lambda>_. []),
        PageNosave := (\<lambda>pfn. 4 \<le> pfn \<and> pfn \<le> 8),
        free_region := free_heads_after, drained := [],
        nr_copy_pages := 3, pagedir_nosave := 0xC0004000, pagedir_save := 0xC0004000,
        pagedir_order := 1, nr_copy_pages_check := 3, pagedir_order_check := 1\<rparr>"

text \<open>
  The state of the marker a page carries, as \<open>read_suspend_image\<close> tells them apart:
  the signature of plain swap space, a suspend signature (\<open>S1\<close> or \<open>S2\<close>), or neither.
  No signature stands for an image in progress. \<open>marker_writes\<close> are the markers
  written to the first page of the swap device \<open>root\<close>, in the order of writing.
\<close>

datatype marker = NormalSwap | SuspendPending | SuspendCommitted | Unrecognised

definition marker_of :: "page \<Rightarrow> marker" where
  "marker_of pg =
     (if memcmp ''SWAP-SPACE'' (magic pg) 10 = 0 \<or> memcmp ''SWAPSPACE2'' (magic pg) 10 = 0
      then NormalSwap
      else if memcmp ''S1'' (magic pg) 2 = 0 \<or> memcmp ''S2'' (magic pg) 2 = 0
      then SuspendCommitted
      else Unrecognised)"

fun marker_writes :: "nat \<Rightarrow> event list \<Rightarrow> marker list" where
  "marker_writes root [] = []"
| "marker_writes root (SwapWrite e pg # evs) =
     (if swp_type e = root \<and> swp_offset e = 0 then marker_of pg # marker_writes root evs
      else marker_writes root evs)"
| "marker_writes root (ev # evs) = marker_writes root evs"

text \<open>
  The steps of the marker the specification allows: normal to pending, pending to
  committed, committed to normal.
\<close>

definition spec_marker_step :: "marker \<Rightarrow> marker \<Rightarrow> bool" where
  "spec_marker_step a b =
     ((a = NormalSwap \<and> b = SuspendPending) \<or> (a = SuspendPending \<and> b = SuspendCommitted)
      \<or> (a = SuspendCommitted \<and> b = NormalSwap))"

text \<open>The slot an event writes, if it is a write to swap.\<close>

fun write_slot :: "event \<Rightarrow> swp_entry_t option" where
  "write_slot (SwapWrite e pg) = Some e"
| "write_slot ev = None"

text \<open>
  Between two states, pages were written to the next \<open>k\<close> slots the swap allocator
  hands out, in that order, and nothing else was read from or written to swap.
\<close>

definition slots_written :: "nat \<Rightarrow> kstate \<Rightarrow> kstate \<Rightarrow> bool" where
  "slots_written k s s' =
     (k \<le> length (swap_alloc s) \<and> swap_alloc s' = drop k (swap_alloc s)
      \<and> (\<exists>evs. io_log s' = io_log s @ evs
                \<and> map write_slot evs = map Some (take k (swap_alloc s))))"

text \<open>Between two states, nothing was written to the first page of the device.\<close>

definition marker_kept :: "nat \<Rightarrow> kstate \<Rightarrow> kstate \<Rightarrow> bool" where
  "marker_kept r s s' =
     (root_swap s' = root_swap s \<and> swap_pages s' r 0 = swap_pages s r 0
      \<and> marker_writes r (io_log s') = marker_writes r (io_log s)
      \<and> set (swap_alloc s') \<subseteq> set (swap_alloc s))"

text \<open>
  The end of \<open>mark_swapfiles\<close>: the page is written back to the first slot of the
  device and freed.
\<close>

definition mark_finish :: "nat \<Rightarrow> page \<Rightarrow> kstate \<Rightarrow> kstate" where
  "mark_finish cur pg' s2 = free_pages cur 0
     (swap_write (swp_entry (root_swap s2) 0) cur (s2\<lparr>mem := (mem s2)(cur := pg')\<rparr>))"

text \<open>What a state holds of the swap devices.\<close>

definition io_part :: "kstate \<Rightarrow> event list \<times> (nat \<Rightarrow> nat \<Rightarrow> page) \<times> swp_entry_t list" where
  "io_part s = (io_log s, swap_pages s, swap_alloc s)"

text \<open>
  The example system with one swap device, which carries the signature of plain swap
  space, and a line \<open>resume=/dev/hda2\<close>. \<open>copied_state\<close> is the system after
  \<open>read_swapfiles\<close>, \<open>suspend_prepare_image\<close> and \<open>lock_swapdevices\<close>, about
  to write the image. \<open>resumed_state\<close> is a system about to clean up after a resume: the
  device carries a suspend signature.
\<close>

definition save_state :: kstate where
  "save_state =
     suspend_state
       \<lparr>page_alloc := (\<lambda>order. if order = 0 then [0xC0006000, 0xC0007000, 0xC0008000, 0xC0009000, 0xC000A000]
                               else if order = 1 then [0xC0004000] else []),
        swap_alloc := [swp_entry 0 1, swp_entry 0 2, swp_entry 0 3, swp_entry 0 4, swp_entry 0 5],
        swap_pages := (\<lambda>t off. if t = 0 \<and> off = 0 then zero_page\<lparr>magic := ''SWAPSPACE2''\<rparr>
                                else zero_page),
        swap_flags := (\<lambda>i. if i = 0 then 1 else 0),
        resume_file := strncpy (replicate 256 NUL) ''/dev/hda2'' 255\<rparr>"

definition state_of :: "fatal + (int \<times> kstate) \<Rightarrow> kstate" where
  "state_of r = (case r of Inr (e, s) \<Rightarrow> s | Inl f \<Rightarrow> example_state)"

definition copied_state :: kstate where
  "copied_state =
     lock_swapdevices example_config
       (state_of (suspend_prepare_image example_config (read_swapfiles example_config save_state)))"

definition resumed_state :: kstate where
  "resumed_state =
     example_state
       \<lparr>page_alloc := (\<lambda>_. [0xC0009000]),
        swap_pages := (\<lambda>t off. if t = 0 \<and> off = 0
                                then zero_page\<lparr>magic := ''S2SUSP....'', link_next := swp_entry 0 5\<rparr>
                                else zero_page),
        pagedir_save := 0xC0004000, pagedir_order := 1\<rparr>"

section \<open>Properties of the C library functions\<close>

lemma memcmp_eq_0_iff:
  "n \<le> length a \<Longrightarrow> n \<le> length b \<Longrightarrow> (memcmp a b n = 0) = (take n a = take n b)"
proof (induction n arbitrary: a b)
  case 0
  then show ?case by simp
next
  case (Suc n)
  then obtain x a' y b' where ab: "a = x # a'" "b = y # b'"
    by (cases a; cases b) auto
  with Suc show ?case by (auto simp: byte_at_def)
qed

lemma strncmp_eq_0_iff:
  "(strncmp a b n = 0) = (cstring n a = cstring n b)"
proof (induction n arbitrary: a b)
  case 0
  then show ?case by (simp add: cstring_def)
next
  case (Suc n)
  show ?case
  proof (cases a; cases b)
    fix x a' y b' assume "a = x # a'" "b = y # b'"
    with Suc [of a' b'] show ?thesis by (auto simp: byte_at_def cstring_def)
  qed (auto simp: byte_at_def cstring_def)
qed

lemma cstring_strncpy: "cstring n (strncpy dst src n) = cstring n src"
proof -
  let ?tw = "takeWhile (\<lambda>x. x \<noteq> NUL) (take n src)"
  have len: "length ?tw \<le> n"
    by (rule order_trans [OF length_takeWhile_le]) simp
  have "take n (strncpy dst src n) = ?tw @ replicate (n - length ?tw) NUL"
    using len by (simp add: strncpy_def Let_def)
  moreover have "takeWhile (\<lambda>x. x \<noteq> NUL) (replicate k NUL) = []" for k
    by (cases k) simp_all
  then have "takeWhile (\<lambda>x. x \<noteq> NUL) (?tw @ replicate (n - length ?tw) NUL) = ?tw"
    by (subst takeWhile_append2) (auto dest: set_takeWhileD)
  ultimately show ?thesis by (simp add: cstring_def)
qed

lemma memcmp_Suc_Suc:
  "memcmp a b (Suc (Suc n)) = 0 \<Longrightarrow> byte_at a = byte_at b \<and> byte_at (tl a) = byte_at (tl b)"
  by (auto split: if_splits)

lemma plain_magic_memcmp:
  "m = ''SWAP-SPACE'' \<or> m = ''SWAPSPACE2'' \<Longrightarrow>
   memcmp ''SWAP-SPACE'' m 10 = 0 \<or> memcmp ''SWAPSPACE2'' m 10 = 0"
  by (auto simp: memcmp_eq_0_iff)

lemma suspend_magic:
  assumes "take 2 m = ''S1'' \<or> take 2 m = ''S2''"
  shows "memcmp ''SWAP-SPACE'' m 10 \<noteq> 0" and "memcmp ''SWAPSPACE2'' m 10 \<noteq> 0"
    and "memcmp ''S1'' m 2 = 0 \<or> memcmp ''S2'' m 2 = 0"
proof -
  from assms obtain x y r where m: "m = x # y # r"
    by (cases m; cases "tl m") auto
  have ten: "(10::nat) = Suc (Suc 8)" by simp
  show "memcmp ''SWAP-SPACE'' m 10 \<noteq> 0"
    using assms memcmp_Suc_Suc [of "''SWAP-SPACE''" m 8] unfolding ten m
    by (auto simp: byte_at_def)
  show "memcmp ''SWAPSPACE2'' m 10 \<noteq> 0"
    using assms memcmp_Suc_Suc [of "''SWAPSPACE2''" m 8] unfolding ten m
    by (auto simp: byte_at_def)
  show "memcmp ''S1'' m 2 = 0 \<or> memcmp ''S2'' m 2 = 0"
    using assms unfolding m by (auto simp: memcmp_eq_0_iff)
qed

lemma bdev_read_page_ok:
  "0 < PAGE_SIZE c \<Longrightarrow> bdev b = Some pg \<Longrightarrow>
   bdev_read_page c bdev (b * PAGE_SIZE c) buf s
     = Inr (0, s\<lparr>mem := (mem s)(buf := pg), io_log := io_log s @ [BdevRead b]\<rparr>)"
  by (simp add: bdev_read_page_def)

section \<open>No resume device\<close>

text \<open>
  C10. When the resume file string is empty (no \<open>resume=\<close> was given, so the buffer is
  as it was initialised, or \<open>noresume\<close> cleared it), \<open>swsusp_read\<close> returns
  \<open>-ENOENT\<close> at once: the state it returns is the state it was given, so no block
  device was opened and no slot was read or written.
\<close>

theorem swsusp_read_no_resume_file:
  "(strlen (resume_file s) = 0 \<longrightarrow> swsusp_read c s = Inr (- ENOENT, s))
   \<and> swsusp_read c (noresume_setup str t) = Inr (- ENOENT, noresume_setup str t)"
proof -
  have "strlen ((resume_file t)[0 := NUL]) = 0"
    by (cases "resume_file t") (simp_all add: strlen_def)
  then show ?thesis
    by (simp add: swsusp_read_def noresume_setup_def)
qed

theorem swsusp_read_no_resume_file_witness:
  "strlen (resume_file example_state) = 0
   \<and> swsusp_read example_config example_state = Inr (- ENOENT, example_state)
   \<and> swsusp_read example_config (noresume_setup ''noresume'' normal_swap_state)
       = Inr (- ENOENT, noresume_setup ''noresume'' normal_swap_state)"
proof -
  have "strlen (resume_file example_state) = 0"
    by (simp add: example_state_def strlen_def)
  then show ?thesis
    using swsusp_read_no_resume_file [where s = example_state and c = example_config
        and str = "''noresume''" and t = normal_swap_state]
    by simp
qed

section \<open>A device that holds normal swap space\<close>

lemma read_normal_swap:
  assumes "bdev 0 = Some pg"
    and "magic pg = ''SWAP-SPACE'' \<or> magic pg = ''SWAPSPACE2''"
  shows "read_suspend_image c bdev cur s
           = Inr (- EINVAL, s\<lparr>mem := (mem s)(cur := pg), io_log := io_log s @ [BdevRead 0]\<rparr>)"
proof -
  have "bdev_read_page c bdev 0 cur s
      = Inr (0, s\<lparr>mem := (mem s)(cur := pg), io_log := io_log s @ [BdevRead 0]\<rparr>)"
    using assms(1) by (simp add: bdev_read_page_def)
  then show ?thesis
    using plain_magic_memcmp [OF assms(2)] by (auto simp: read_suspend_image_def)
qed

lemma swsusp_read_normal_swap:
  assumes "bdev 0 = Some pg"
    and "magic pg = ''SWAP-SPACE'' \<or> magic pg = ''SWAPSPACE2''"
    and "strlen (resume_file s) \<noteq> 0" and "page_alloc s 0 = cur # rest" and "cur \<noteq> 0"
    and "block_devices s (name_to_dev_t c (resume_file s)) = Inr bdev"
  shows "\<exists>s'. swsusp_read c s = Inr (- EINVAL, s')
              \<and> io_log s' = io_log s @ [BdevOpen (name_to_dev_t c (resume_file s)), BdevRead 0, BdevPut]"
  using assms(3-6)
  by (simp add: read_normal_swap [where bdev = bdev and pg = pg, OF assms(1,2)]
      swsusp_read_def get_zeroed_page_def get_free_pages_def free_pages_def)

lemma strlen_dev_hda2: "strlen (strncpy (replicate 256 NUL) ''/dev/hda2'' 255) = 9"
  by (simp add: strlen_def strncpy_def NUL_def)

text \<open>
  C7, as the code has it. When the first block of the device carries the signature of
  plain swap space (\<open>SWAP-SPACE\<close> or \<open>SWAPSPACE2\<close>), \<open>read_suspend_image\<close> returns
  the error code \<open>-EINVAL\<close> after reading that one block and nothing else, and
  \<open>swsusp_read\<close> opens the device, reads block 0, releases the device and returns the
  same error code.
\<close>

theorem read_suspend_image_normal_swap:
  assumes "bdev 0 = Some pg"
    and "magic pg = ''SWAP-SPACE'' \<or> magic pg = ''SWAPSPACE2''"
  shows "read_suspend_image c bdev cur s
           = Inr (- EINVAL, s\<lparr>mem := (mem s)(cur := pg), io_log := io_log s @ [BdevRead 0]\<rparr>)
         \<and> (strlen (resume_file s) \<noteq> 0 \<and> page_alloc s 0 = cur # rest \<and> cur \<noteq> 0
              \<and> block_devices s (name_to_dev_t c (resume_file s)) = Inr bdev
            \<longrightarrow> (\<exists>s'. swsusp_read c s = Inr (- EINVAL, s')
                  \<and> io_log s' = io_log s @ [BdevOpen (name_to_dev_t c (resume_file s)), BdevRead 0, BdevPut]))"
  using read_normal_swap [where bdev = bdev and pg = pg, OF assms]
    swsusp_read_normal_swap [where bdev = bdev and pg = pg, OF assms] by blast

theorem read_suspend_image_normal_swap_witness:
  "normal_swap_device 0 = Some (zero_page\<lparr>magic := ''SWAP-SPACE''\<rparr>)
   \<and> result_of (read_suspend_image example_config normal_swap_device 0xC0005000 example_state)
       = Inr (- EINVAL)"
  using read_suspend_image_normal_swap [where bdev = normal_swap_device
      and pg = "zero_page\<lparr>magic := ''SWAP-SPACE''\<rparr>" and c = example_config
      and cur = "0xC0005000" and s = example_state]
  by (simp add: normal_swap_device_def result_of_def)

text \<open>
  The claim as the specification states it fails: on the example device with plain swap
  space the result of \<open>swsusp_read\<close> is \<open>-EINVAL\<close>, not 0, and \<open>swsusp_read\<close>
  reports every result other than 0 as an error.
\<close>

theorem normal_swap_is_reported_as_error:
  "magic (the (normal_swap_device 0)) = ''SWAP-SPACE''
   \<and> result_of (swsusp_read example_config normal_swap_state) = Inr (- EINVAL)
   \<and> result_of (swsusp_read example_config normal_swap_state) \<noteq> Inr 0"
proof -
  have m: "magic (the (normal_swap_device 0)) = ''SWAP-SPACE''"
    by (simp add: normal_swap_device_def)
  have "\<exists>s'. swsusp_read example_config normal_swap_state = Inr (- EINVAL, s')
              \<and> io_log s' = io_log normal_swap_state
                   @ [BdevOpen (name_to_dev_t example_config (resume_file normal_swap_state)), BdevRead 0, BdevPut]"
    by (rule swsusp_read_normal_swap [where bdev = normal_swap_device
          and pg = "zero_page\<lparr>magic := ''SWAP-SPACE''\<rparr>" and cur = "0xC0005000" and rest = "[]"])
       (simp_all add: normal_swap_device_def normal_swap_state_def example_state_def
          example_config_def strlen_dev_hda2)
  then show ?thesis using m by (auto simp: result_of_def EINVAL_def)
qed

section \<open>Validation of the header\<close>

lemma sanity_check_iff:
  "(sanity_check c h = 0) =
     (version_code h = LINUX_VERSION_CODE c \<and> hdr_num_physpages h = num_physpages c
      \<and> cstring 8 (machine h) = cstring 8 (utsname_machine c)
      \<and> cstring 20 (version h) = cstring 20 (utsname_version c)
      \<and> num_cpus h = num_online_cpus c \<and> page_size h = int (PAGE_SIZE c))"
  by (simp add: sanity_check_def strncmp_eq_0_iff EPERM_def)

lemma sanity_check_result: "sanity_check c h = 0 \<or> sanity_check c h = - EPERM"
  by (simp add: sanity_check_def)

lemma sanity_check_fill:
  "fill_suspend_header c s = Inr h \<Longrightarrow> sanity_check c h = 0"
  by (auto simp: sanity_check_iff fill_suspend_header_def Let_def cstring_strncpy split: if_splits)

lemma read_rejected_header:
  assumes "0 < PAGE_SIZE c" and "bdev 0 = Some mk"
    and "take 2 (magic mk) = ''S1'' \<or> take 2 (magic mk) = ''S2''"
    and "bdev (swp_offset (link_next mk)) = Some hp"
    and "sanity_check c (sh hp) \<noteq> 0"
  shows "read_suspend_image c bdev cur s
           = Inr (- EPERM, s\<lparr>mem := (mem s)(cur := hp),
                io_log := io_log s @ [BdevRead 0, BdevRead (swp_offset (link_next mk))]\<rparr>)"
proof -
  have r0: "bdev_read_page c bdev 0 cur s
      = Inr (0, s\<lparr>mem := (mem s)(cur := mk), io_log := io_log s @ [BdevRead 0]\<rparr>)"
    using assms(2) by (simp add: bdev_read_page_def)
  note r1 = bdev_read_page_ok [where bdev = bdev, OF assms(1) assms(4)]
  show ?thesis
    using suspend_magic [OF assms(3)] assms(5)
    by (auto simp: read_suspend_image_def r0 r1 PREPARENEXT_def Let_def)
qed

text \<open>
  C3. \<open>sanity_check\<close> returns 0 exactly for the headers that agree with the running
  system in all six fields: the version code, the number of physical pages, the machine
  string (the string in the field's eight bytes), the version string (twenty bytes), the
  number of CPUs and the page size. A header that differs in one of them (or in more)
  gets \<open>-EPERM\<close>. The header \<open>fill_suspend_header\<close> writes on a system is accepted
  on that system. When the header of an image is rejected, \<open>read_suspend_image\<close>
  returns \<open>-EPERM\<close> having read the signature block and the header block only: the
  state is the one it was given but for the page the two blocks were read into and the two
  reads, so no page directory was allocated and none of the image's slots was read.
\<close>

theorem sanity_check_validates:
  "(sanity_check c h = 0 \<longleftrightarrow>
      version_code h = LINUX_VERSION_CODE c \<and> hdr_num_physpages h = num_physpages c
      \<and> cstring 8 (machine h) = cstring 8 (utsname_machine c)
      \<and> cstring 20 (version h) = cstring 20 (utsname_version c)
      \<and> num_cpus h = num_online_cpus c \<and> page_size h = int (PAGE_SIZE c))
   \<and> (sanity_check c h = 0 \<or> sanity_check c h = - EPERM)
   \<and> (fill_suspend_header c t = Inr h' \<longrightarrow> sanity_check c h' = 0)
   \<and> (0 < PAGE_SIZE c \<and> bdev 0 = Some mk
        \<and> (take 2 (magic mk) = ''S1'' \<or> take 2 (magic mk) = ''S2'')
        \<and> bdev (swp_offset (link_next mk)) = Some hp \<and> sanity_check c (sh hp) \<noteq> 0
       \<longrightarrow> read_suspend_image c bdev cur s
             = Inr (- EPERM, s\<lparr>mem := (mem s)(cur := hp),
                  io_log := io_log s @ [BdevRead 0, BdevRead (swp_offset (link_next mk))]\<rparr>))"
  using sanity_check_iff [of c h] sanity_check_result [of c h] sanity_check_fill [of c t h']
    read_rejected_header [where bdev = bdev and c = c and mk = mk and hp = hp and cur = cur and s = s]
  by blast

lemma fill_example_header: "fill_suspend_header example_config example_state = Inr example_header"
  by (simp add: fill_suspend_header_def example_config_def example_state_def example_header_def
      zero_header_def strncpy_def NUL_def)

theorem sanity_check_validates_witness:
  "fill_suspend_header example_config example_state = Inr example_header
   \<and> sanity_check example_config example_header = 0
   \<and> sanity_check example_config (example_header\<lparr>version_code := 132609\<rparr>) = - EPERM
   \<and> other_version_device 0 = Some (zero_page\<lparr>magic := ''S1SUSP....'', link_next := swp_entry 0 3\<rparr>)
   \<and> other_version_device 3 = Some (zero_page\<lparr>sh := example_header\<lparr>version_code := 132609\<rparr>\<rparr>)
   \<and> result_of (read_suspend_image example_config other_version_device 0xC0005000 example_state)
       = Inr (- EPERM)"
proof -
  have v: "version_code (example_header\<lparr>version_code := 132609\<rparr>) \<noteq> LINUX_VERSION_CODE example_config"
    by (simp add: example_config_def)
  have ps: "0 < PAGE_SIZE example_config"
    by (simp add: example_config_def)
  have d0: "other_version_device 0 = Some (zero_page\<lparr>magic := ''S1SUSP....'', link_next := swp_entry 0 3\<rparr>)"
    and d3: "other_version_device 3 = Some (zero_page\<lparr>sh := example_header\<lparr>version_code := 132609\<rparr>\<rparr>)"
    by (simp_all add: other_version_device_def)
  note t1 = sanity_check_validates [where c = example_config and h = "example_header\<lparr>version_code := 132609\<rparr>"
      and t = example_state and h' = example_header and bdev = other_version_device
      and mk = "zero_page\<lparr>magic := ''S1SUSP....'', link_next := swp_entry 0 3\<rparr>"
      and hp = "zero_page\<lparr>sh := example_header\<lparr>version_code := 132609\<rparr>\<rparr>"
      and cur = "0xC0005000" and s = example_state]
  from t1 fill_example_header have a: "sanity_check example_config example_header = 0"
    by blast
  from t1 v have b: "sanity_check example_config (example_header\<lparr>version_code := 132609\<rparr>) = - EPERM"
    by blast
  have nz: "sanity_check example_config (sh (zero_page\<lparr>sh := example_header\<lparr>version_code := 132609\<rparr>\<rparr>)) \<noteq> 0"
    using b by (simp add: EPERM_def)
  have off: "swp_offset (link_next (zero_page\<lparr>magic := ''S1SUSP....'', link_next := swp_entry 0 3\<rparr>)) = 3"
    by (simp add: swp_entry_def)
  have "read_suspend_image example_config other_version_device 0xC0005000 example_state
      = Inr (- EPERM, example_state\<lparr>mem := (mem example_state)(0xC0005000 := zero_page\<lparr>sh := example_header\<lparr>version_code := 132609\<rparr>\<rparr>),
            io_log := io_log example_state @ [BdevRead 0, BdevRead 3]\<rparr>)"
    using t1 ps d0 d3 nz off by simp
  then show ?thesis
    using fill_example_header a b d0 d3 by (simp add: result_of_def)
qed

section \<open>The walk over the page frames\<close>

lemma count_page_None [simp]: "count_page c None nr pfn s = Inr s"
  by (simp add: count_page_def)

lemma count_page_mem_only:
  "count_page c p nr pfn s = Inr s1 \<Longrightarrow> s1 = s\<lparr>mem := mem s1\<rparr>"
  by (cases p)
     (auto simp: count_page_def copy_data_page_def copy_page_def Let_def split: if_splits)

lemma count_page_fields:
  assumes "count_page c p nr pfn s = Inr s1"
  shows "PageReserved s1 = PageReserved s" and "PageNosave s1 = PageNosave s"
    and "free_region s1 = free_region s"
proof -
  note m = count_page_mem_only [OF assms]
  show "PageReserved s1 = PageReserved s" by (subst m) simp
  show "PageNosave s1 = PageNosave s" by (subst m) simp
  show "free_region s1 = free_region s" by (subst m) simp
qed

lemma count_loop_None:
  "count_and_copy_loop c None pfn nr s = Inr (n, s') \<Longrightarrow> s' = s"
proof (induction c "None :: nat option" pfn nr s rule: count_and_copy_loop.induct)
  case (1 c pfn nr s)
  from "1.prems" "1.hyps" show ?case
    by (subst (asm) count_and_copy_loop.simps) (auto split: if_splits)
qed

lemma count_loop_cases:
  assumes "count_and_copy_loop c p pfn nr s = Inr (n, s')"
  obtains (stop) "\<not> pfn < max_pfn c" and "n = nr" and "s' = s"
  | (skip) "pfn < max_pfn c" and "count_and_copy_loop c p (Suc pfn) nr s = Inr (n, s')"
  | (jump) "pfn < max_pfn c" and "free_region s pfn \<noteq> 0"
      and "count_and_copy_loop c p (Suc (pfn + (free_region s pfn - 1))) nr s = Inr (n, s')"
  | (count) s1 where "pfn < max_pfn c" and "count_page c p nr pfn s = Inr s1"
      and "count_and_copy_loop c p (Suc pfn) (Suc nr) s1 = Inr (n, s')"
proof -
  note res = assms [unfolded count_and_copy_loop.simps [of c p pfn nr s]]
  show thesis
  proof (cases "pfn < max_pfn c")
    case False
    with res stop show thesis by simp
  next
    case lt: True
    show thesis
    proof (cases "count_page c p nr pfn s")
      case (Inl f)
      with res lt skip jump show thesis
        by (simp split: if_splits)
    next
      case (Inr s1)
      with res lt skip jump count [of s1] show thesis
        by (simp split: if_splits)
    qed
  qed
qed

lemma count_loop_mem_only:
  "count_and_copy_loop c p pfn nr s = Inr (n, s') \<Longrightarrow> s' = s\<lparr>mem := mem s'\<rparr>"
proof (induction "max_pfn c - pfn" arbitrary: pfn nr s rule: less_induct)
  case less
  have upd: "t = u\<lparr>mem := mem t\<rparr> \<Longrightarrow> u = s\<lparr>mem := mem u\<rparr> \<Longrightarrow> t = s\<lparr>mem := mem t\<rparr>" for t u :: kstate
    by (metis kstate.update_convs(1) kstate.surjective)
  from less.prems show ?case
  proof (cases rule: count_loop_cases)
    case stop
    then show ?thesis by simp
  next
    case skip
    from less.hyps [OF _ skip(2)] skip(1) show ?thesis by simp
  next
    case jump
    from less.hyps [OF _ jump(3)] jump(1) show ?thesis by simp
  next
    case (count s1)
    from less.hyps [OF _ count(3)] count(1) have "s' = s1\<lparr>mem := mem s'\<rparr>" by simp
    from upd [OF this count_page_mem_only [OF count(2)]] show ?thesis .
  qed
qed

lemma count_loop_mono:
  "count_and_copy_loop c p pfn nr s = Inr (n, s') \<Longrightarrow> nr \<le> n"
proof (induction "max_pfn c - pfn" arbitrary: pfn nr s rule: less_induct)
  case less
  from less.prems show ?case
  proof (cases rule: count_loop_cases)
    case stop
    then show ?thesis by simp
  next
    case skip
    from less.hyps [OF _ skip(2)] skip(1) show ?thesis by simp
  next
    case jump
    from less.hyps [OF _ jump(3)] jump(1) show ?thesis by simp
  next
    case (count s1)
    from count(1) have "max_pfn c - Suc pfn < max_pfn c - pfn" by simp
    from less.hyps [OF this count(3)] show ?thesis by simp
  qed
qed

lemma drain_fields [simp]:
  "nr_copy_pages (drain_local_pages s) = nr_copy_pages s"
  "nr_free_pages (drain_local_pages s) = nr_free_pages s"
  "freeswap (drain_local_pages s) = freeswap s"
  "page_alloc (drain_local_pages s) = page_alloc s"
  "freed (drain_local_pages s) = freed s"
  "mem (drain_local_pages s) = mem s"
  "PageNosave (drain_local_pages s) = PageNosave s"
  "PageReserved (drain_local_pages s) = PageReserved s"
  "swap_pages (drain_local_pages s) = swap_pages s"
  "swap_alloc (drain_local_pages s) = swap_alloc s"
  "io_log (drain_local_pages s) = io_log s"
  "root_swap (drain_local_pages s) = root_swap s"
  "pagedir_order (drain_local_pages s) = pagedir_order s"
  "pagedir_nosave (drain_local_pages s) = pagedir_nosave s"
  "pagedir_save (drain_local_pages s) = pagedir_save s"
  by (simp_all add: drain_local_pages_def split: list.splits)

lemma count_None:
  "count_and_copy_data_pages c None s = Inr (n, s') \<Longrightarrow> s' = s"
  by (auto simp: count_and_copy_data_pages_def split: if_splits dest: count_loop_None)

lemma count_mem_only:
  "count_and_copy_data_pages c p s = Inr (n, s') \<Longrightarrow> s' = s\<lparr>mem := mem s'\<rparr>"
  by (auto simp: count_and_copy_data_pages_def split: if_splits dest: count_loop_mem_only)

lemma count_of_Inr: "count_of r = Inr n \<Longrightarrow> \<exists>s'. r = Inr (n, s')"
  by (cases r) (auto simp: count_of_def)

text \<open>
  The count of a walk, when the free regions are well formed: the number of frames to be
  saved. The walk is never inside a free region: every region that begins below the frame
  it is at ends there or below.
\<close>

lemma in_free_at:
  assumes "\<forall>h<pfn. h + free_region t h \<le> pfn"
  shows "in_free_region t pfn = (free_region t pfn \<noteq> 0)"
proof
  assume "in_free_region t pfn"
  then obtain h where h: "h \<le> pfn" "pfn < h + free_region t h"
    by (auto simp: in_free_region_def)
  with assms have "h = pfn"
    by (cases "h < pfn") auto
  with h show "free_region t pfn \<noteq> 0" by simp
next
  assume "free_region t pfn \<noteq> 0"
  then show "in_free_region t pfn"
    by (auto simp: in_free_region_def intro!: bexI [of _ pfn])
qed

lemma filter_upt_skip:
  assumes "a \<le> b" and "\<forall>q. a \<le> q \<and> q < b \<longrightarrow> \<not> P q"
  shows "filter P [a..<c] = filter P [b..<c]"
proof (cases "b \<le> c")
  case True
  with assms(1) have "[a..<c] = [a..<b] @ [b..<c]"
    by (metis le_Suc_ex upt_add_eq_append)
  moreover have "filter P [a..<b] = []"
    using assms(2) by (auto simp: filter_empty_conv)
  ultimately show ?thesis by simp
next
  case False
  have "filter P [a..<c] = []"
    using assms(2) False by (auto simp: filter_empty_conv)
  with False show ?thesis by simp
qed

lemma walk_counts:
  "count_and_copy_loop c p pfn nr s = Inr (n, s') \<Longrightarrow>
   PageReserved s = PageReserved t \<Longrightarrow> PageNosave s = PageNosave t \<Longrightarrow>
   free_region s = free_region t \<Longrightarrow>
   free_regions_wf c t \<Longrightarrow> \<forall>h<pfn. h + free_region t h \<le> pfn \<Longrightarrow>
   n = nr + length (filter (saved_frame c t) [pfn..<max_pfn c])"
proof (induction c p pfn nr s rule: count_and_copy_loop.induct)
  case (1 c p pfn nr s)
  note unf = count_and_copy_loop.simps [of c p pfn nr s]
  note res = "1.prems"(1) [unfolded unf]
  note fl = "1.prems"(2-4)
  note wf = "1.prems"(5)
  note inv = "1.prems"(6)
  show ?case
  proof (cases "pfn < max_pfn c")
    case False
    with res show ?thesis by simp
  next
    case lt: True
    have hd: "[pfn..<max_pfn c] = pfn # [Suc pfn..<max_pfn c]"
      using lt by (rule upt_conv_Cons)
    note free_at = in_free_at [OF inv]
    have head_ok: "\<not> PageReserved t pfn \<and> \<not> PageNosave t pfn
        \<and> (\<forall>q \<in> {pfn<..<pfn + free_region t pfn}. free_region t q = 0)"
      if "free_region t pfn \<noteq> 0"
    proof -
      from lt have "pfn \<in> {0..<max_pfn c}" by simp
      with wf that show ?thesis
        unfolding free_regions_wf_def by blast
    qed
    have inv1: "\<forall>h<Suc pfn. h + free_region t h \<le> Suc pfn" if "free_region t pfn = 0"
    proof (intro allI impI)
      fix h assume "h < Suc pfn"
      then consider "h < pfn" | "h = pfn" by (auto simp: less_Suc_eq)
      then show "h + free_region t h \<le> Suc pfn"
      proof cases
        case 1
        with inv have "h + free_region t h \<le> pfn" by simp
        then show ?thesis by simp
      next
        case 2
        with that show ?thesis by simp
      qed
    qed
    show ?thesis
    proof (cases "PageReserved s pfn")
      case res': False
      show ?thesis
      proof (cases "PageNosave s pfn")
        case True
        with res lt res' have r: "count_and_copy_loop c p (Suc pfn) nr s = Inr (n, s')"
          by simp
        from True fl have "PageNosave t pfn" by simp
        with head_ok have f0: "free_region t pfn = 0" by blast
        from True fl have "\<not> saved_frame c t pfn" by (simp add: saved_frame_def)
        with "1.IH"(1) [OF lt res' True r fl wf inv1 [OF f0]] show ?thesis
          by (simp add: hd)
      next
        case ns: False
        show ?thesis
        proof (cases "free_region s pfn = 0")
          case True
          with res lt res' ns obtain s1 where cp: "count_page c p nr pfn s = Inr s1"
            and r: "count_and_copy_loop c p (Suc pfn) (Suc nr) s1 = Inr (n, s')"
            by (auto split: sum.splits)
          from True fl have f0: "free_region t pfn = 0" by simp
          have fl1: "PageReserved s1 = PageReserved t" "PageNosave s1 = PageNosave t"
            "free_region s1 = free_region t"
            using count_page_fields [OF cp] fl by simp_all
          from f0 ns res' fl free_at have "saved_frame c t pfn"
            by (simp add: saved_frame_def)
          with "1.IH"(3) [OF lt res' ns _ cp r fl1 wf inv1 [OF f0]] True show ?thesis
            by (simp add: hd)
        next
          case False
          let ?pfn' = "pfn + free_region t pfn"
          from False have p': "Suc (pfn + (free_region s pfn - 1)) = ?pfn'"
            using fl by simp
          from res lt res' ns False
          have r: "count_and_copy_loop c p (Suc (pfn + (free_region s pfn - 1))) nr s = Inr (n, s')"
            by simp
          from False fl have fn: "free_region t pfn \<noteq> 0" by simp
          have inv2: "\<forall>h<?pfn'. h + free_region t h \<le> ?pfn'"
          proof (intro allI impI)
            fix h assume hl: "h < ?pfn'"
            consider "h < pfn" | "h = pfn" | "pfn < h" by (meson nat_neq_iff)
            then show "h + free_region t h \<le> ?pfn'"
            proof cases
              case 1
              with inv have "h + free_region t h \<le> pfn" by simp
              then show ?thesis by simp
            next
              case 2
              then show ?thesis by simp
            next
              case 3
              with hl have "h \<in> {pfn<..<pfn + free_region t pfn}"
                by simp
              with head_ok [OF fn] have "free_region t h = 0"
                by blast
              with hl show ?thesis by simp
            qed
          qed
          have "\<forall>q. pfn \<le> q \<and> q < ?pfn' \<longrightarrow> \<not> saved_frame c t q"
            by (auto simp: saved_frame_def in_free_region_def intro!: bexI [of _ pfn])
          then have "filter (saved_frame c t) [pfn..<max_pfn c]
              = filter (saved_frame c t) [?pfn'..<max_pfn c]"
            by (intro filter_upt_skip) simp_all
          with "1.IH"(2) [OF lt res' ns False r fl wf, unfolded p', OF inv2] show ?thesis
            by simp
        qed
      qed
    next
      case res': True
      from res' fl have "PageReserved t pfn" by simp
      with head_ok have f0: "free_region t pfn = 0" by blast
      show ?thesis
      proof (cases "PageNosave s pfn")
        case True
        with res lt res' show ?thesis by simp
      next
        case ns: False
        show ?thesis
        proof (cases "nosave_begin c \<le> ADDRESS c pfn \<and> ADDRESS c pfn < nosave_end c")
          case True
          with res lt res' ns have r: "count_and_copy_loop c p (Suc pfn) nr s = Inr (n, s')"
            by simp
          from True res' fl have "\<not> saved_frame c t pfn" by (simp add: saved_frame_def)
          with "1.IH"(4) [OF lt _ ns True r fl wf inv1 [OF f0]] res' show ?thesis
            by (simp add: hd)
        next
          case False
          with res lt res' ns obtain s1 where cp: "count_page c p nr pfn s = Inr s1"
            and r: "count_and_copy_loop c p (Suc pfn) (Suc nr) s1 = Inr (n, s')"
            by (auto split: sum.splits)
          have fl1: "PageReserved s1 = PageReserved t" "PageNosave s1 = PageNosave t"
            "free_region s1 = free_region t"
            using count_page_fields [OF cp] fl by simp_all
          from f0 ns False fl free_at have "saved_frame c t pfn"
            by (simp add: saved_frame_def)
          with "1.IH"(5) [OF lt _ ns False cp r fl1 wf inv1 [OF f0]] res' show ?thesis
            by (simp add: hd)
        qed
      qed
    qed
  qed
qed

lemma count_saved_frames:
  assumes "count_and_copy_data_pages c p s = Inr (n, s')" and "free_regions_wf c s"
  shows "n = length (filter (saved_frame c s) [0..<max_pfn c])"
proof -
  from assms(1) have "count_and_copy_loop c p 0 0 s = Inr (n, s')"
    by (simp add: count_and_copy_data_pages_def split: if_splits)
  from walk_counts [OF this refl refl refl assms(2)] show ?thesis by simp
qed

lemmas example_defs = example_config_def suspend_state_def disturbed_state_def crowded_state_def
  prepared_state_def example_state_def free_heads_before_def free_heads_after_def
  free_heads_disturbed_def free_heads_crowded_def

lemmas eval_defs = count_and_copy_data_pages_def drain_local_pages_def count_and_copy_loop.simps
  ADDRESS_def create_suspend_pagedir_def fls.simps get_free_pages_def get_zeroed_page_def Let_def
  upt_rec SetPageNosave_def virt_to_pfn_def count_page_def copy_data_page_def pbe_update_def
  pbe_at_def pbe_page_def copy_page_def PAGES_FOR_IO_def suspend_prepare_image_def

section \<open>Uniqueness of the recorded addresses\<close>

lemma pbe_slot_inj:
  assumes "0 < PAGE_SIZE c" and "pbe_page c pd j = pbe_page c pd k"
    and "j mod PBES_PER_PAGE c = k mod PBES_PER_PAGE c"
  shows "j = k"
proof -
  from assms(1,2) have "j div PBES_PER_PAGE c = k div PBES_PER_PAGE c"
    by (simp add: pbe_page_def)
  with assms(3) show ?thesis
    by (metis div_mult_mod_eq)
qed

lemma pbe_at_update_same:
  "pbe_at c (pbe_update c pd k f m) pd k = f (pbe_at c m pd k)"
  by (simp add: pbe_at_def pbe_update_def Let_def)

lemma pbe_at_update_other:
  "0 < PAGE_SIZE c \<Longrightarrow> j \<noteq> k \<Longrightarrow> pbe_at c (pbe_update c pd k f m) pd j = pbe_at c m pd j"
  using pbe_slot_inj [of c pd j k]
  by (auto simp: pbe_at_def pbe_update_def Let_def)

lemma pbe_at_copy_page:
  "copy_page c to from m = Inr m' \<Longrightarrow> to \<noteq> pbe_page c pd j \<Longrightarrow> pbe_at c m' pd j = pbe_at c m pd j"
  by (auto simp: pbe_at_def copy_page_def split: if_splits)

lemma ADDRESS_mono: "pfn \<le> pfn' \<Longrightarrow> ADDRESS c pfn \<le> ADDRESS c pfn'"
  by (simp add: ADDRESS_def)

lemma ADDRESS_Suc: "0 < PAGE_SIZE c \<Longrightarrow> ADDRESS c pfn < ADDRESS c (Suc pfn)"
  by (simp add: ADDRESS_def)

lemma walk_inv_skip:
  "pfn \<le> pfn' \<Longrightarrow> walk_inv c pd N pfn nr m \<Longrightarrow> walk_inv c pd N pfn' nr m"
  using ADDRESS_mono [of pfn pfn' c] by (fastforce simp: walk_inv_def)

lemma copy_data_page_pbe:
  assumes "0 < PAGE_SIZE c" and "nr < N" and "buffers_apart c (mem s) pd N" and "j < N"
    and "copy_data_page c pd nr pfn s = Inr s1"
  shows "pbe_at c (mem s1) pd j
           = (if j = nr then (pbe_at c (mem s) pd nr)\<lparr>orig_address := ADDRESS c pfn\<rparr>
              else pbe_at c (mem s) pd j)"
proof -
  let ?m1 = "pbe_update c pd nr (\<lambda>p. p\<lparr>orig_address := ADDRESS c pfn\<rparr>) (mem s)"
  have a: "address (pbe_at c ?m1 pd nr) = address (pbe_at c (mem s) pd nr)"
    by (simp add: pbe_at_update_same)
  from assms(5) obtain m2 where
    cp: "copy_page c (address (pbe_at c ?m1 pd nr)) (orig_address (pbe_at c ?m1 pd nr)) ?m1 = Inr m2"
    and s1: "mem s1 = m2"
    by (auto simp: copy_data_page_def Let_def split: if_splits sum.splits)
  have "address (pbe_at c (mem s) pd nr) \<noteq> pbe_page c pd j"
    using assms(2-4) by (simp add: buffers_apart_def)
  then have "pbe_at c (mem s1) pd j = pbe_at c ?m1 pd j"
    using pbe_at_copy_page [OF cp, of pd j] by (simp add: s1 a)
  then show ?thesis
    using assms(1) by (simp add: pbe_at_update_same pbe_at_update_other)
qed

lemma walk_inv_copy:
  assumes "0 < PAGE_SIZE c" and "nr < N" and "walk_inv c pd N pfn nr (mem s)"
    and "copy_data_page c pd nr pfn s = Inr s1"
  shows "walk_inv c pd N (Suc pfn) (Suc nr) (mem s1)"
proof -
  let ?m' = "mem s1"
  from assms(3) have apart: "buffers_apart c (mem s) pd N"
    and srt: "sorted_wrt (<) (pagedir_origs c (mem s) pd nr)"
    and below: "\<forall>x \<in> set (pagedir_origs c (mem s) pd nr). x < ADDRESS c pfn"
    by (simp_all add: walk_inv_def)
  have pbe: "j < N \<Longrightarrow> pbe_at c (mem s1) pd j
           = (if j = nr then (pbe_at c (mem s) pd nr)\<lparr>orig_address := ADDRESS c pfn\<rparr>
              else pbe_at c (mem s) pd j)" for j
    by (rule copy_data_page_pbe [OF assms(1,2) apart _ assms(4)])
  have old: "pagedir_origs c ?m' pd nr = pagedir_origs c (mem s) pd nr"
    using assms(2) by (simp add: pagedir_origs_def pbe)
  have new: "pagedir_origs c ?m' pd (Suc nr) = pagedir_origs c (mem s) pd nr @ [ADDRESS c pfn]"
    using old assms(2) by (simp add: pagedir_origs_def pbe)
  have "buffers_apart c ?m' pd N"
    using apart by (simp add: buffers_apart_def pbe)
  moreover have "sorted_wrt (<) (pagedir_origs c ?m' pd (Suc nr))"
    using srt below by (simp add: new sorted_wrt_append)
  moreover have "\<forall>x \<in> set (pagedir_origs c ?m' pd (Suc nr)). x < ADDRESS c (Suc pfn)"
    using below ADDRESS_Suc [OF assms(1), of pfn] by (auto simp: new)
  ultimately show ?thesis by (simp add: walk_inv_def)
qed

lemma count_loop_inv:
  "count_and_copy_loop c (Some pd) pfn nr s = Inr (n, s') \<Longrightarrow> 0 < PAGE_SIZE c \<Longrightarrow> n \<le> N \<Longrightarrow>
   walk_inv c pd N pfn nr (mem s) \<Longrightarrow>
   sorted_wrt (<) (pagedir_origs c (mem s') pd n) \<and> buffers_apart c (mem s') pd N"
proof (induction c "Some pd" pfn nr s rule: count_and_copy_loop.induct)
  case (1 c pfn nr s)
  note unf = count_and_copy_loop.simps [of c "Some pd" pfn nr s]
  note res = "1.prems"(1) [unfolded unf]
  show ?case
  proof (cases "pfn < max_pfn c")
    case False
    with res "1.prems"(4) show ?thesis
      by (simp add: walk_inv_def)
  next
    case lt: True
    have cp: "count_page c (Some pd) nr pfn s = copy_data_page c pd nr pfn s"
      by (simp add: count_page_def)
    have step: "walk_inv c pd N (Suc pfn) (Suc nr) (mem s1)"
      if "copy_data_page c pd nr pfn s = Inr s1"
        and "count_and_copy_loop c (Some pd) (Suc pfn) (Suc nr) s1 = Inr (n, s')" for s1
      using count_loop_mono [OF that(2)] walk_inv_copy [of c nr N pd pfn s s1] "1.prems"(2-4) that(1)
      by simp
    have skip1: "walk_inv c pd N (Suc pfn) nr (mem s)"
      using walk_inv_skip [of pfn "Suc pfn"] "1.prems"(4) by simp
    have skip2: "walk_inv c pd N (Suc (pfn + (free_region s pfn - 1))) nr (mem s)"
      using walk_inv_skip [of pfn "Suc (pfn + (free_region s pfn - 1))"] "1.prems"(4) by simp
    show ?thesis
    proof (cases "PageReserved s pfn")
      case res': False
      show ?thesis
      proof (cases "PageNosave s pfn")
        case True
        with res lt res' have "count_and_copy_loop c (Some pd) (Suc pfn) nr s = Inr (n, s')"
          by simp
        from "1.hyps"(1) [OF lt res' True this "1.prems"(2,3) skip1] show ?thesis .
      next
        case ns: False
        show ?thesis
        proof (cases "free_region s pfn = 0")
          case True
          with res lt res' ns obtain s1 where c1: "copy_data_page c pd nr pfn s = Inr s1"
            and r: "count_and_copy_loop c (Some pd) (Suc pfn) (Suc nr) s1 = Inr (n, s')"
            by (auto simp: cp split: sum.splits)
          from "1.hyps"(3) [OF lt res' ns _ c1 [folded cp] r "1.prems"(2,3) step [OF c1 r]] True
          show ?thesis by simp
        next
          case False
          with res lt res' ns
          have "count_and_copy_loop c (Some pd) (Suc (pfn + (free_region s pfn - 1))) nr s = Inr (n, s')"
            by simp
          from "1.hyps"(2) [OF lt res' ns False this "1.prems"(2,3) skip2] show ?thesis .
        qed
      qed
    next
      case res': True
      show ?thesis
      proof (cases "PageNosave s pfn")
        case True
        with res lt res' show ?thesis by simp
      next
        case ns: False
        show ?thesis
        proof (cases "nosave_begin c \<le> ADDRESS c pfn \<and> ADDRESS c pfn < nosave_end c")
          case True
          with res lt res' ns have "count_and_copy_loop c (Some pd) (Suc pfn) nr s = Inr (n, s')"
            by simp
          from "1.hyps"(4) [OF lt _ ns True this "1.prems"(2,3) skip1] res' show ?thesis by simp
        next
          case False
          with res lt res' ns obtain s1 where c1: "copy_data_page c pd nr pfn s = Inr s1"
            and r: "count_and_copy_loop c (Some pd) (Suc pfn) (Suc nr) s1 = Inr (n, s')"
            by (auto simp: cp split: sum.splits)
          from "1.hyps"(5) [OF lt _ ns False c1 [folded cp] r "1.prems"(2,3) step [OF c1 r]] res'
          show ?thesis by simp
        qed
      qed
    qed
  qed
qed



section \<open>Preparing the image\<close>

lemma free_suspend_pagedir_step_nr [simp]:
  "nr_copy_pages (free_suspend_pagedir_step c a b pfn s) = nr_copy_pages s"
  by (simp add: free_suspend_pagedir_step_def free_pages_def Let_def)

lemma fold_nr_copy_pages:
  "(\<And>x s. nr_copy_pages (f x s) = nr_copy_pages s) \<Longrightarrow> nr_copy_pages (fold f xs s) = nr_copy_pages s"
  by (induction xs arbitrary: s) simp_all

lemma free_suspend_pagedir_nr [simp]:
  "nr_copy_pages (free_suspend_pagedir c pd s) = nr_copy_pages s"
  by (simp add: free_suspend_pagedir_def Let_def free_pages_def fold_nr_copy_pages)

lemma get_zeroed_page_nr:
  "get_zeroed_page s = (a, s') \<Longrightarrow> nr_copy_pages s' = nr_copy_pages s"
  by (auto simp: get_zeroed_page_def get_free_pages_def split: list.splits if_splits)

lemma create_pagedir_loop_nr:
  "create_pagedir_loop c pd ks s = (r, s') \<Longrightarrow> nr_copy_pages s' = nr_copy_pages s"
proof (induction ks arbitrary: s)
  case Nil
  then show ?case by simp
next
  case (Cons k ks)
  obtain a s1 where g: "get_zeroed_page s = (a, s1)" by (cases "get_zeroed_page s")
  from Cons.prems g get_zeroed_page_nr [OF g] show ?case
    by (auto simp: Let_def SetPageNosave_def split: if_splits dest!: Cons.IH)
qed

lemma create_suspend_pagedir_nr:
  "create_suspend_pagedir c n s = (pd, s') \<Longrightarrow> nr_copy_pages s' = nr_copy_pages s"
  by (auto simp: create_suspend_pagedir_def Let_def get_free_pages_def SetPageNosave_def
      fold_nr_copy_pages split: list.splits if_splits dest!: create_pagedir_loop_nr)

text \<open>
  When \<open>create_suspend_pagedir\<close> succeeds it has changed no reserved flag, and has set
  nosave flags and cleared none.
\<close>

lemma get_zeroed_page_flags:
  "get_zeroed_page s = (a, s') \<Longrightarrow> PageReserved s' = PageReserved s \<and> PageNosave s' = PageNosave s"
  by (auto simp: get_zeroed_page_def get_free_pages_def split: list.splits if_splits)

lemma create_pagedir_loop_flags:
  "create_pagedir_loop c pd ks s = (r, s') \<Longrightarrow> r \<noteq> 0 \<Longrightarrow>
   PageReserved s' = PageReserved s \<and> (\<forall>p. PageNosave s p \<longrightarrow> PageNosave s' p)"
proof (induction ks arbitrary: s)
  case Nil
  then show ?case by simp
next
  case (Cons k ks)
  obtain a s1 where g: "get_zeroed_page s = (a, s1)" by (cases "get_zeroed_page s")
  note f = get_zeroed_page_flags [OF g]
  let ?s2 = "s1\<lparr>mem := pbe_update c pd k (\<lambda>p. p\<lparr>address := a\<rparr>) (mem s1)\<rparr>"
  let ?s3 = "SetPageNosave (virt_to_pfn c a) ?s2"
  let ?s4 = "?s3\<lparr>mem := pbe_update c pd k (\<lambda>p. p\<lparr>orig_address := 0\<rparr>) (mem ?s3)\<rparr>"
  from Cons.prems g have a: "a \<noteq> 0" and r: "create_pagedir_loop c pd ks ?s4 = (r, s')"
    by (auto simp: Let_def split: if_splits)
  from Cons.IH [OF r Cons.prems(2)] f show ?case
    by (simp add: SetPageNosave_def)
qed

lemma fold_SetPageNosave_flags:
  "PageReserved (fold (\<lambda>i. SetPageNosave (f i)) xs s) = PageReserved s
   \<and> (\<forall>p. PageNosave s p \<longrightarrow> PageNosave (fold (\<lambda>i. SetPageNosave (f i)) xs s) p)"
  by (induction xs arbitrary: s) (simp_all add: SetPageNosave_def)

lemma create_suspend_pagedir_flags:
  assumes "create_suspend_pagedir c n s = (pd, s')" and "pd \<noteq> 0"
  shows "PageReserved s' = PageReserved s \<and> (\<forall>p. PageNosave s p \<longrightarrow> PageNosave s' p)"
proof -
  let ?s1 = "s\<lparr>pagedir_order := get_bitmask_order c (SUSPEND_PD_PAGES c n)\<rparr>"
  obtain pagedir s2 where g: "get_free_pages (pagedir_order ?s1) ?s1 = (pagedir, s2)"
    by (cases "get_free_pages (pagedir_order ?s1) ?s1")
  then have f2: "PageReserved s2 = PageReserved s" "PageNosave s2 = PageNosave s"
    by (auto simp: get_free_pages_def split: list.splits)
  let ?s3 = "fold (\<lambda>i. SetPageNosave (virt_to_pfn c pagedir + i)) [0..<2 ^ pagedir_order s2] s2"
  from assms g have r: "create_pagedir_loop c pagedir [0..<n] ?s3 = (pd, s')"
    by (auto simp: create_suspend_pagedir_def Let_def split: if_splits)
  from create_pagedir_loop_flags [OF r assms(2)]
    fold_SetPageNosave_flags [of "\<lambda>i. virt_to_pfn c pagedir + i" "[0..<2 ^ pagedir_order s2]" s2] f2
  show ?thesis by simp
qed

lemma prepare_second_pass:
  assumes "count_and_copy_data_pages c None ((drain_local_pages u)\<lparr>pagedir_nosave := 0\<rparr>) = Inr (n, u1)"
    and "\<not> nr_free_pages u1 < (n + PAGES_FOR_IO) mod 2 ^ 32"
    and "\<not> freeswap u1 < (n + PAGES_FOR_IO) mod 2 ^ 32"
    and "create_suspend_pagedir c n (u1\<lparr>nr_copy_pages := n\<rparr>) = (pd, u2)"
    and "pd \<noteq> 0"
    and "count_and_copy_data_pages c (Some pd)
           (drain_local_pages (u2\<lparr>pagedir_save := pd, pagedir_nosave := pd,
              nr_copy_pages_check := nr_copy_pages u2, pagedir_order_check := pagedir_order u2\<rparr>))
         = Inr (n', u3)"
  shows "suspend_prepare_image c u = (if n' \<noteq> n then Inl BUG else Inr (0, u3))"
proof -
  have n2: "nr_copy_pages u2 = n"
    using create_suspend_pagedir_nr [OF assms(4)] by simp
  have "nr_copy_pages u3 = nr_copy_pages (drain_local_pages (u2\<lparr>pagedir_save := pd, pagedir_nosave := pd,
              nr_copy_pages_check := nr_copy_pages u2, pagedir_order_check := pagedir_order u2\<rparr>))"
    using count_mem_only [OF assms(6)] by (metis kstate.select_convs(19) kstate.surjective kstate.update_convs(1))
  then have n3: "nr_copy_pages u3 = n"
    using n2 by simp
  show ?thesis
    using assms n3 by (simp add: suspend_prepare_image_def Let_def)
qed

lemma prepare_fails:
  assumes "count_and_copy_data_pages c None ((drain_local_pages s)\<lparr>pagedir_nosave := 0\<rparr>) = Inr (n, s1)"
    and "n + PAGES_FOR_IO < 2 ^ 32"
    and "nr_free_pages s < n + PAGES_FOR_IO \<or> freeswap s < n + PAGES_FOR_IO"
  shows "suspend_prepare_image c s
           = Inr (1, (drain_local_pages s)\<lparr>pagedir_nosave := 0, nr_copy_pages := n,
                root_swap := (if nr_free_pages s < n + PAGES_FOR_IO then 0xFFFF else root_swap s)\<rparr>)"
proof -
  have s1: "s1 = (drain_local_pages s)\<lparr>pagedir_nosave := 0\<rparr>"
    using count_None [OF assms(1)] .
  show ?thesis
    using assms(2,3) assms(1) [unfolded s1]
    by (auto simp: suspend_prepare_image_def Let_def)
qed

text \<open>
  The two walks of \<open>suspend_prepare_image\<close> count the same frames when, in between,
  pages were taken from the free regions for the snapshot and for nothing else.
\<close>

lemma same_saved_frames:
  assumes "PageReserved t = PageReserved s" and "\<forall>p. PageNosave s p \<longrightarrow> PageNosave t p"
    and "taken_from_free c s t" and "p < max_pfn c"
  shows "saved_frame c t p = saved_frame c s p"
proof (cases "PageNosave t p \<and> \<not> PageNosave s p")
  case True
  with assms(3,4) have "in_free_region s p"
    by (auto simp: taken_from_free_def)
  with True show ?thesis by (simp add: saved_frame_def)
next
  case False
  with assms(3,4) have "in_free_region t p = in_free_region s p"
    by (auto simp: taken_from_free_def)
  moreover from False assms(2) have "PageNosave t p = PageNosave s p" by blast
  ultimately show ?thesis
    using assms(1) by (simp add: saved_frame_def)
qed

lemma two_walks_agree:
  assumes "count_and_copy_data_pages c p s = Inr (n, s')"
    and "count_and_copy_data_pages c p' t = Inr (n', t')"
    and "PageReserved t = PageReserved s" and "\<forall>p. PageNosave s p \<longrightarrow> PageNosave t p"
    and "free_regions_wf c s" and "free_regions_wf c t" and "taken_from_free c s t"
  shows "n' = n"
proof -
  have "filter (saved_frame c t) [0..<max_pfn c] = filter (saved_frame c s) [0..<max_pfn c]"
    by (rule filter_cong [OF refl]) (simp add: same_saved_frames [OF assms(3,4,7)])
  with count_saved_frames [OF assms(1,5)] count_saved_frames [OF assms(2,6)]
  show ?thesis by simp
qed

text \<open>
  C5. In \<open>suspend_prepare_image\<close>, let the counting walk return \<open>n\<close> in the state
  \<open>u1\<close>, the page directory be created, and the copying walk return \<open>n'\<close> from the
  state \<open>t\<close>. When the free regions are well formed at both walks and, in between, pages
  were taken from the free regions for the snapshot only (the frames that have become
  nosave were free, and no other frame has become free or has ceased to be), the two
  counts are the same. The call returns 0 when they are; when the copying walk returns a
  different count the call is \<open>BUG()\<close>, which does not return.
\<close>

theorem two_pass_consistency:
  assumes "count_and_copy_data_pages c None ((drain_local_pages u)\<lparr>pagedir_nosave := 0\<rparr>) = Inr (n, u1)"
    and "\<not> nr_free_pages u1 < (n + PAGES_FOR_IO) mod 2 ^ 32"
    and "\<not> freeswap u1 < (n + PAGES_FOR_IO) mod 2 ^ 32"
    and "create_suspend_pagedir c n (u1\<lparr>nr_copy_pages := n\<rparr>) = (pd, u2)"
    and "pd \<noteq> 0"
    and "t = drain_local_pages (u2\<lparr>pagedir_save := pd, pagedir_nosave := pd,
              nr_copy_pages_check := nr_copy_pages u2, pagedir_order_check := pagedir_order u2\<rparr>)"
    and "count_and_copy_data_pages c (Some pd) t = Inr (n', u3)"
  shows "(free_regions_wf c u1 \<and> free_regions_wf c t \<and> taken_from_free c u1 t \<longrightarrow> n' = n)
         \<and> suspend_prepare_image c u = (if n' = n then Inr (0, u3) else Inl BUG)"
proof -
  from create_suspend_pagedir_flags [OF assms(4,5)]
  have fl: "PageReserved t = PageReserved u1" "\<forall>p. PageNosave u1 p \<longrightarrow> PageNosave t p"
    by (simp_all add: assms(6))
  have "n' = n" if "free_regions_wf c u1" "free_regions_wf c t" "taken_from_free c u1 t"
    using two_walks_agree [OF assms(1) [unfolded count_None [OF assms(1), symmetric]]
        assms(7) fl that] .
  moreover have "suspend_prepare_image c u = (if n' = n then Inr (0, u3) else Inl BUG)"
    using prepare_second_pass [OF assms(1-5) assms(7) [unfolded assms(6)]] by simp
  ultimately show ?thesis by blast
qed

lemma in_free_before:
  assumes "free_region s = free_heads_before" and "p < 1024"
  shows "in_free_region s p = (4 \<le> p)"
proof
  assume "in_free_region s p"
  then obtain h where "h \<le> p" "p < h + free_heads_before h"
    by (auto simp: in_free_region_def assms(1))
  then show "4 \<le> p"
    by (auto simp: free_heads_before_def split: if_splits)
next
  assume "4 \<le> p"
  with assms(2) consider "4 \<le> p \<and> p < 4 + 4" | "8 \<le> p \<and> p < 8 + 8" | "16 \<le> p \<and> p < 16 + 16"
    | "32 \<le> p \<and> p < 32 + 32" | "64 \<le> p \<and> p < 64 + 64" | "128 \<le> p \<and> p < 128 + 128"
    | "256 \<le> p \<and> p < 256 + 256" | "512 \<le> p \<and> p < 512 + 512"
    by linarith
  then have "\<exists>h. h \<le> p \<and> p < h + free_heads_before h"
    by cases (rule exI [of _ 4], simp add: free_heads_before_def,
        rule exI [of _ 8], simp add: free_heads_before_def,
        rule exI [of _ 16], simp add: free_heads_before_def,
        rule exI [of _ 32], simp add: free_heads_before_def,
        rule exI [of _ 64], simp add: free_heads_before_def,
        rule exI [of _ 128], simp add: free_heads_before_def,
        rule exI [of _ 256], simp add: free_heads_before_def,
        rule exI [of _ 512], simp add: free_heads_before_def)
  then show "in_free_region s p"
    by (auto simp: in_free_region_def assms(1))
qed

lemma in_free_after:
  assumes "free_region s = free_heads_after" and "p < 1024"
  shows "in_free_region s p = (9 \<le> p)"
proof
  assume "in_free_region s p"
  then obtain h where "h \<le> p" "p < h + free_heads_after h"
    by (auto simp: in_free_region_def assms(1))
  then show "9 \<le> p"
    by (auto simp: free_heads_after_def split: if_splits)
next
  assume "9 \<le> p"
  with assms(2) consider "9 \<le> p \<and> p < 9 + 1" | "10 \<le> p \<and> p < 10 + 2" | "12 \<le> p \<and> p < 12 + 4"
    | "16 \<le> p \<and> p < 16 + 16"
    | "32 \<le> p \<and> p < 32 + 32" | "64 \<le> p \<and> p < 64 + 64" | "128 \<le> p \<and> p < 128 + 128"
    | "256 \<le> p \<and> p < 256 + 256" | "512 \<le> p \<and> p < 512 + 512"
    by linarith
  then have "\<exists>h. h \<le> p \<and> p < h + free_heads_after h"
    by cases (rule exI [of _ 9], simp add: free_heads_after_def,
        rule exI [of _ 10], simp add: free_heads_after_def,
        rule exI [of _ 12], simp add: free_heads_after_def,
        rule exI [of _ 16], simp add: free_heads_after_def,
        rule exI [of _ 32], simp add: free_heads_after_def,
        rule exI [of _ 64], simp add: free_heads_after_def,
        rule exI [of _ 128], simp add: free_heads_after_def,
        rule exI [of _ 256], simp add: free_heads_after_def,
        rule exI [of _ 512], simp add: free_heads_after_def)
  then show "in_free_region s p"
    by (auto simp: in_free_region_def assms(1))
qed

lemma wf_before:
  assumes "free_region s = free_heads_before" and "PageReserved s = (\<lambda>pfn. pfn < 2)"
    and "PageNosave s = (\<lambda>_. False)"
  shows "free_regions_wf example_config s"
  by (auto simp: free_regions_wf_def assms free_heads_before_def split: if_splits)

lemma wf_after:
  assumes "free_region s = free_heads_after" and "PageReserved s = (\<lambda>pfn. pfn < 2)"
    and "\<forall>p. PageNosave s p \<longrightarrow> p \<le> 8"
  shows "free_regions_wf example_config s"
  using assms(3)
  by (auto simp: free_regions_wf_def assms(1,2) free_heads_after_def split: if_splits)

theorem two_pass_consistency_witness:
  "(\<exists>u1 pd u2 t u3.
      count_and_copy_data_pages example_config None
          ((drain_local_pages suspend_state)\<lparr>pagedir_nosave := 0\<rparr>) = Inr (3, u1)
      \<and> create_suspend_pagedir example_config 3 (u1\<lparr>nr_copy_pages := 3\<rparr>) = (pd, u2) \<and> pd \<noteq> 0
      \<and> t = drain_local_pages (u2\<lparr>pagedir_save := pd, pagedir_nosave := pd,
              nr_copy_pages_check := nr_copy_pages u2, pagedir_order_check := pagedir_order u2\<rparr>)
      \<and> count_and_copy_data_pages example_config (Some pd) t = Inr (3, u3)
      \<and> free_regions_wf example_config u1 \<and> free_regions_wf example_config t
      \<and> taken_from_free example_config u1 t
      \<and> \<not> PageNosave u1 6 \<and> PageNosave t 6
      \<and> suspend_prepare_image example_config suspend_state = Inr (0, u3))
   \<and> result_of (suspend_prepare_image example_config disturbed_state) = Inl BUG
   \<and> result_of (suspend_prepare_image example_config crowded_state) = Inl Oops"
proof -
  let ?U0 = "(drain_local_pages suspend_state)\<lparr>pagedir_nosave := 0\<rparr>"
  define CR where "CR = create_suspend_pagedir example_config 3 (?U0\<lparr>nr_copy_pages := 3\<rparr>)"
  define T where "T = drain_local_pages ((snd CR)\<lparr>pagedir_save := fst CR, pagedir_nosave := fst CR,
                nr_copy_pages_check := nr_copy_pages (snd CR), pagedir_order_check := pagedir_order (snd CR)\<rparr>)"
  have h1: "count_and_copy_data_pages example_config None ?U0 = Inr (3, ?U0)"
    by (simp add: example_defs eval_defs)
  have h2: "\<not> nr_free_pages ?U0 < (3 + PAGES_FOR_IO) mod 2 ^ 32" "\<not> freeswap ?U0 < (3 + PAGES_FOR_IO) mod 2 ^ 32"
    by (simp_all add: example_defs eval_defs)
  have h4: "create_suspend_pagedir example_config 3 (?U0\<lparr>nr_copy_pages := 3\<rparr>) = (fst CR, snd CR)"
    by (simp add: CR_def)
  have h5: "fst CR \<noteq> 0"
    by (simp add: CR_def example_defs eval_defs)
  have "count_of (count_and_copy_data_pages example_config (Some (fst CR)) T) = Inr 3"
    by (simp add: T_def CR_def count_of_def example_defs eval_defs)
  then obtain u3 where h6: "count_and_copy_data_pages example_config (Some (fst CR)) T = Inr (3, u3)"
    by (auto dest: count_of_Inr)
  have f0: "free_region ?U0 = free_heads_before" "PageReserved ?U0 = (\<lambda>pfn. pfn < 2)"
    "PageNosave ?U0 = (\<lambda>_. False)"
    by (simp_all add: example_defs eval_defs)
  have fT: "free_region T = free_heads_after" "PageReserved T = (\<lambda>pfn. pfn < 2)"
    by (simp_all add: T_def CR_def example_defs eval_defs)
  have "PageNosave T p = (p = 4 \<or> p = 5 \<or> p = 6 \<or> p = 7 \<or> p = 8)" for p
    by (simp add: T_def CR_def example_defs eval_defs)
  then have nT: "PageNosave T p = (4 \<le> p \<and> p \<le> 8)" for p
    by (simp only:) arith
  have w0: "free_regions_wf example_config ?U0"
    by (rule wf_before [OF f0])
  have wT: "free_regions_wf example_config T"
    by (rule wf_after [OF fT]) (simp add: nT)
  have tk: "taken_from_free example_config ?U0 T"
    by (auto simp: taken_from_free_def in_free_before [OF f0(1)] in_free_after [OF fT(1)]
        nT f0(3) example_config_def)
  from two_pass_consistency [OF h1 h2 h4 h5 T_def h6] w0 wT tk
  have r: "suspend_prepare_image example_config suspend_state = Inr (0, u3)"
    by simp
  have np: "\<not> PageNosave ?U0 6" "PageNosave T 6"
    by (simp_all add: f0(3) nT)
  have a: "\<exists>u1 pd u2 t u3.
      count_and_copy_data_pages example_config None ?U0 = Inr (3, u1)
      \<and> create_suspend_pagedir example_config 3 (u1\<lparr>nr_copy_pages := 3\<rparr>) = (pd, u2) \<and> pd \<noteq> 0
      \<and> t = drain_local_pages (u2\<lparr>pagedir_save := pd, pagedir_nosave := pd,
              nr_copy_pages_check := nr_copy_pages u2, pagedir_order_check := pagedir_order u2\<rparr>)
      \<and> count_and_copy_data_pages example_config (Some pd) t = Inr (3, u3)
      \<and> free_regions_wf example_config u1 \<and> free_regions_wf example_config t
      \<and> taken_from_free example_config u1 t
      \<and> \<not> PageNosave u1 6 \<and> PageNosave t 6
      \<and> suspend_prepare_image example_config suspend_state = Inr (0, u3)"
    apply (rule exI [of _ ?U0])
    apply (rule exI [of _ "fst CR"])
    apply (rule exI [of _ "snd CR"])
    apply (rule exI [of _ T])
    apply (rule exI [of _ u3])
    apply (intro conjI)
    apply (rule h1 h4 h5 T_def h6 w0 wT tk r np)+
    done
  let ?V0 = "(drain_local_pages disturbed_state)\<lparr>pagedir_nosave := 0\<rparr>"
  define DR where "DR = create_suspend_pagedir example_config 3 (?V0\<lparr>nr_copy_pages := 3\<rparr>)"
  define D where "D = drain_local_pages ((snd DR)\<lparr>pagedir_save := fst DR, pagedir_nosave := fst DR,
                nr_copy_pages_check := nr_copy_pages (snd DR), pagedir_order_check := pagedir_order (snd DR)\<rparr>)"
  have d1: "count_and_copy_data_pages example_config None ?V0 = Inr (3, ?V0)"
    by (simp add: example_defs eval_defs)
  have d2: "\<not> nr_free_pages ?V0 < (3 + PAGES_FOR_IO) mod 2 ^ 32" "\<not> freeswap ?V0 < (3 + PAGES_FOR_IO) mod 2 ^ 32"
    by (simp_all add: example_defs eval_defs)
  have d4: "create_suspend_pagedir example_config 3 (?V0\<lparr>nr_copy_pages := 3\<rparr>) = (fst DR, snd DR)"
    by (simp add: DR_def)
  have d5: "fst DR \<noteq> 0"
    by (simp add: DR_def example_defs eval_defs)
  have "count_of (count_and_copy_data_pages example_config (Some (fst DR)) D) = Inr 2"
    by (simp add: D_def DR_def count_of_def example_defs eval_defs)
  then obtain v3 where d6: "count_and_copy_data_pages example_config (Some (fst DR)) D = Inr (2, v3)"
    by (auto dest: count_of_Inr)
  from two_pass_consistency [OF d1 d2 d4 d5 D_def d6]
  have b: "result_of (suspend_prepare_image example_config disturbed_state) = Inl BUG"
    by (simp add: result_of_def)
  have c: "result_of (suspend_prepare_image example_config crowded_state) = Inl Oops"
    by (simp add: result_of_def example_defs eval_defs zero_page_def zero_pbe_def)
  from a b c show ?thesis by (intro conjI)
qed

text \<open>
  C6. When the counting pass has counted \<open>n\<close> pages and there are fewer than
  \<open>n + PAGES_FOR_IO\<close> free pages, or fewer than that many free swap pages,
  \<open>suspend_prepare_image\<close> returns 1 before it allocates anything: the state is the
  one it was given but for the drained free lists, \<open>pagedir_nosave\<close> (null),
  \<open>nr_copy_pages\<close> and, when free pages are short, \<open>root_swap\<close>. No page was
  requested or freed, no nosave flag was set, and nothing was read from or written to
  swap.
\<close>

theorem prepare_fails_cleanly:
  assumes "count_and_copy_data_pages c None ((drain_local_pages s)\<lparr>pagedir_nosave := 0\<rparr>) = Inr (n, s1)"
    and "n + PAGES_FOR_IO < 2 ^ 32"
    and "nr_free_pages s < n + PAGES_FOR_IO \<or> freeswap s < n + PAGES_FOR_IO"
  shows "\<exists>s'. suspend_prepare_image c s = Inr (1, s')
           \<and> s' = (drain_local_pages s)\<lparr>pagedir_nosave := 0, nr_copy_pages := n,
                    root_swap := (if nr_free_pages s < n + PAGES_FOR_IO then 0xFFFF else root_swap s)\<rparr>
           \<and> page_alloc s' = page_alloc s \<and> freed s' = freed s \<and> mem s' = mem s
           \<and> PageNosave s' = PageNosave s
           \<and> swap_alloc s' = swap_alloc s \<and> swap_pages s' = swap_pages s \<and> io_log s' = io_log s"
  by (simp add: prepare_fails [OF assms])

theorem prepare_fails_cleanly_witness:
  "count_of (count_and_copy_data_pages example_config None
       ((drain_local_pages (suspend_state\<lparr>freeswap := 514\<rparr>))\<lparr>pagedir_nosave := 0\<rparr>)) = Inr 3
   \<and> freeswap (suspend_state\<lparr>freeswap := 514\<rparr>) < 3 + PAGES_FOR_IO
   \<and> result_of (suspend_prepare_image example_config (suspend_state\<lparr>freeswap := 514\<rparr>)) = Inr 1
   \<and> result_of (suspend_prepare_image example_config (suspend_state\<lparr>freeswap := 515\<rparr>)) = Inr 0"
proof -
  let ?U0 = "(drain_local_pages (suspend_state\<lparr>freeswap := 514\<rparr>))\<lparr>pagedir_nosave := 0\<rparr>"
  have h1: "count_and_copy_data_pages example_config None ?U0 = Inr (3, ?U0)"
    by (simp add: example_defs eval_defs)
  have h2: "(3::nat) + PAGES_FOR_IO < 2 ^ 32"
    by (simp add: PAGES_FOR_IO_def)
  have h3: "freeswap (suspend_state\<lparr>freeswap := 514\<rparr>) < 3 + PAGES_FOR_IO"
    by (simp add: PAGES_FOR_IO_def)
  from prepare_fails_cleanly [where c = example_config and s = "suspend_state\<lparr>freeswap := 514\<rparr>"
      and n = 3 and ?s1.0 = ?U0, OF h1 h2] h3
  have "result_of (suspend_prepare_image example_config (suspend_state\<lparr>freeswap := 514\<rparr>)) = Inr 1"
    by (auto simp: result_of_def)
  moreover have "result_of (suspend_prepare_image example_config (suspend_state\<lparr>freeswap := 515\<rparr>)) = Inr 0"
    by (simp add: result_of_def example_defs eval_defs)
  ultimately show ?thesis
    using h1 h3 by (simp add: count_of_def)
qed

section \<open>The marker on the swap device\<close>

lemma marker_writes_append:
  "marker_writes r (a @ b) = marker_writes r a @ marker_writes r b"
  by (induction r a rule: marker_writes.induct) simp_all

lemma marker_of_suspend_magic:
  "take 2 (magic pg) = ''S1'' \<or> take 2 (magic pg) = ''S2'' \<Longrightarrow> marker_of pg = SuspendCommitted"
  using suspend_magic [of "magic pg"] by (auto simp: marker_of_def)

lemma marker_of_normal_magic:
  "take 10 (magic pg) = ''SWAP-SPACE'' \<or> take 10 (magic pg) = ''SWAPSPACE2'' \<Longrightarrow> marker_of pg = NormalSwap"
proof -
  assume a: "take 10 (magic pg) = ''SWAP-SPACE'' \<or> take 10 (magic pg) = ''SWAPSPACE2''"
  then have "length (take 10 (magic pg)) = 10"
    by (auto dest: arg_cong [where f = length] simp del: length_take)
  then have "10 \<le> length (magic pg)" by simp
  with a show ?thesis by (auto simp: marker_of_def memcmp_eq_0_iff)
qed

lemma marker_kept_refl: "marker_kept r s s"
  by (simp add: marker_kept_def)

lemma marker_kept_trans: "marker_kept r s t \<Longrightarrow> marker_kept r t u \<Longrightarrow> marker_kept r s u"
  by (auto simp: marker_kept_def)

lemma get_swap_page_entry:
  "get_swap_page s = (e, s1) \<Longrightarrow> \<not> val_is_zero e \<Longrightarrow>
   \<exists>rest. swap_alloc s = e # rest \<and> s1 = s\<lparr>swap_alloc := rest\<rparr>"
  by (auto simp: get_swap_page_def val_is_zero_def swp_entry_def split: list.splits)

lemma swap_write_marker_kept:
  "swp_offset e \<noteq> 0 \<Longrightarrow> marker_kept r s (swap_write e a s)"
  by (auto simp: marker_kept_def swap_write_def marker_writes_append)

lemma write_data_loop_marker:
  "write_data_loop c js s = Inr s' \<Longrightarrow> \<forall>e \<in> set (swap_alloc s). swp_offset e \<noteq> 0 \<Longrightarrow>
   marker_kept r s s'"
proof (induction js arbitrary: s)
  case Nil
  then show ?case by (simp add: marker_kept_refl)
next
  case (Cons i js)
  obtain e s1 where g: "get_swap_page s = (e, s1)" by (cases "get_swap_page s")
  from Cons.prems(1) g have nz: "\<not> val_is_zero e"
    by (auto split: if_splits)
  from get_swap_page_entry [OF g nz] obtain rest where ge: "swap_alloc s = e # rest" "s1 = s\<lparr>swap_alloc := rest\<rparr>"
    by blast
  let ?a = "address (pbe_at c (mem s1) (pagedir_nosave s1) i)"
  let ?s2 = "swap_write e ?a s1"
  let ?s3 = "?s2\<lparr>mem := pbe_update c (pagedir_nosave ?s2) i (\<lambda>p. p\<lparr>swap_address := e\<rparr>) (mem ?s2)\<rparr>"
  from Cons.prems(1) g nz have rest: "write_data_loop c js ?s3 = Inr s'"
    by (auto simp: Let_def split: if_splits)
  have off: "swp_offset e \<noteq> 0" using ge Cons.prems(2) by auto
  have k1: "marker_kept r s ?s3"
    using ge off by (auto simp: marker_kept_def swap_write_def marker_writes_append)
  have "\<forall>e \<in> set (swap_alloc ?s3). swp_offset e \<noteq> 0"
    using ge Cons.prems(2) by (auto simp: swap_write_def)
  from Cons.IH [OF rest this] k1 show ?case
    by (rule marker_kept_trans [rotated])
qed

lemma write_pagedir_loop_marker:
  "write_pagedir_loop c js prev s = Inr (prev', s') \<Longrightarrow> \<forall>e \<in> set (swap_alloc s). swp_offset e \<noteq> 0 \<Longrightarrow>
   marker_kept r s s'"
proof (induction js arbitrary: s prev)
  case Nil
  then show ?case by (simp add: marker_kept_refl)
next
  case (Cons i js)
  obtain e s1 where g: "get_swap_page s = (e, s1)" by (cases "get_swap_page s")
  from Cons.prems(1) g have nz: "\<not> val_is_zero e"
    by (auto simp: Let_def split: if_splits)
  from get_swap_page_entry [OF g nz] obtain rest where ge: "swap_alloc s = e # rest" "s1 = s\<lparr>swap_alloc := rest\<rparr>"
    by blast
  let ?cur = "pagedir_nosave s + i * PAGE_SIZE c"
  let ?s2 = "s1\<lparr>mem := (mem s1)(?cur := (mem s1 ?cur)\<lparr>link_next := prev\<rparr>)\<rparr>"
  let ?s3 = "swap_write e ?cur ?s2"
  from Cons.prems(1) g nz have rest: "write_pagedir_loop c js e ?s3 = Inr (prev', s')"
    by (auto simp: Let_def split: if_splits)
  have off: "swp_offset e \<noteq> 0" using ge Cons.prems(2) by auto
  have k1: "marker_kept r s ?s3"
    using ge off by (auto simp: marker_kept_def swap_write_def marker_writes_append)
  have "\<forall>e \<in> set (swap_alloc ?s3). swp_offset e \<noteq> 0"
    using ge Cons.prems(2) by (auto simp: swap_write_def)
  from Cons.IH [OF rest this] k1 show ?case
    by (rule marker_kept_trans [rotated])
qed

lemma memcpy_take: "n \<le> length src \<Longrightarrow> take n (memcpy dst src n) = take n src"
  by (simp add: memcpy_def)

lemma mark_finish_fields:
  "swap_pages (mark_finish cur pg' s2) (root_swap s2) 0 = pg'"
  "io_log (mark_finish cur pg' s2) = io_log s2 @ [SwapWrite (swp_entry (root_swap s2) 0) pg']"
  "root_swap (mark_finish cur pg' s2) = root_swap s2"
  by (simp_all add: mark_finish_def free_pages_def swap_write_def swp_entry_def)

lemma mark_swapfiles_unfold:
  assumes "root_swap s \<noteq> 0xFFFF" and "get_free_pages 0 s = (cur, s1)"
  shows "mark_swapfiles prev mode s =
     (if cur = 0 then Inl (Panic ''Out of memory in mark_swapfiles'')
      else
        let s2 = swap_read (swp_entry (root_swap s1) 0) cur s1; pg = mem s2 cur
        in if mode = MARK_SWAP_RESUME then
             (if memcmp ''S1'' (magic pg) 2 = 0
              then Inr (mark_finish cur (pg\<lparr>magic := memcpy (magic pg) ''SWAP-SPACE'' 10\<rparr>) s2)
              else if memcmp ''S2'' (magic pg) 2 = 0
              then Inr (mark_finish cur (pg\<lparr>magic := memcpy (magic pg) ''SWAPSPACE2'' 10\<rparr>) s2)
              else Inr (mark_finish cur pg s2))
           else
             (if memcmp ''SWAP-SPACE'' (magic pg) 10 = 0
              then Inr (mark_finish cur (pg\<lparr>magic := memcpy (magic pg) ''S1SUSP....'' 10, link_next := prev\<rparr>) s2)
              else if memcmp ''SWAPSPACE2'' (magic pg) 10 = 0
              then Inr (mark_finish cur (pg\<lparr>magic := memcpy (magic pg) ''S2SUSP....'' 10, link_next := prev\<rparr>) s2)
              else Inl (Panic ''Swapspace is not swapspace'')))"
  using assms by (simp add: mark_swapfiles_def mark_finish_def Let_def swap_read_def)

lemma get_free_pages_frame:
  "get_free_pages k s = (a, s1) \<Longrightarrow>
   root_swap s1 = root_swap s \<and> swap_pages s1 = swap_pages s \<and> io_log s1 = io_log s
   \<and> swap_alloc s1 = swap_alloc s \<and> mem s1 = mem s \<and> swapfile_used s1 = swapfile_used s
   \<and> nr_copy_pages s1 = nr_copy_pages s \<and> pagedir_nosave s1 = pagedir_nosave s
   \<and> pagedir_save s1 = pagedir_save s \<and> pagedir_order s1 = pagedir_order s"
  by (auto simp: get_free_pages_def split: list.splits)

lemma mark_swapfiles_suspend:
  assumes "mark_swapfiles prev MARK_SWAP_SUSPEND s = Inr s'" and "root_swap s \<noteq> 0xFFFF"
  shows "marker_of (swap_pages s (root_swap s) 0) = NormalSwap
         \<and> marker_of (swap_pages s' (root_swap s) 0) = SuspendCommitted
         \<and> link_next (swap_pages s' (root_swap s) 0) = prev
         \<and> marker_writes (root_swap s) (io_log s') = marker_writes (root_swap s) (io_log s) @ [SuspendCommitted]
         \<and> root_swap s' = root_swap s"
proof -
  obtain cur s1 where g: "get_free_pages 0 s = (cur, s1)" by (cases "get_free_pages 0 s")
  note fr = get_free_pages_frame [OF g]
  define s2 where "s2 = swap_read (swp_entry (root_swap s1) 0) cur s1"
  define pg where "pg = mem s2 cur"
  have pg: "pg = swap_pages s (root_swap s) 0"
    using fr by (simp add: pg_def s2_def swap_read_def swp_entry_def)
  have s2: "root_swap s2 = root_swap s" "marker_writes (root_swap s) (io_log s2) = marker_writes (root_swap s) (io_log s)"
    using fr by (simp_all add: s2_def swap_read_def marker_writes_append)
  have c1: "marker_of (pg\<lparr>magic := memcpy (magic pg) ''S1SUSP....'' 10, link_next := prev\<rparr>) = SuspendCommitted"
    by (rule marker_of_suspend_magic) (simp add: memcpy_def)
  have c2: "marker_of (pg\<lparr>magic := memcpy (magic pg) ''S2SUSP....'' 10, link_next := prev\<rparr>) = SuspendCommitted"
    by (rule marker_of_suspend_magic) (simp add: memcpy_def)
  have n: "memcmp ''SWAP-SPACE'' (magic pg) 10 = 0 \<or> memcmp ''SWAPSPACE2'' (magic pg) 10 = 0 \<Longrightarrow> marker_of pg = NormalSwap"
    by (simp add: marker_of_def)
  from assms(1) have "\<exists>pg'. s' = mark_finish cur pg' s2 \<and> marker_of pg' = SuspendCommitted \<and> link_next pg' = prev
      \<and> marker_of pg = NormalSwap"
    unfolding mark_swapfiles_unfold [OF assms(2) g] s2_def [symmetric] Let_def pg_def [symmetric]
    using c1 c2 n by (auto simp: MARK_SWAP_SUSPEND_def MARK_SWAP_RESUME_def split: if_splits)
  then obtain pg' where p: "s' = mark_finish cur pg' s2" "marker_of pg' = SuspendCommitted" "link_next pg' = prev"
      "marker_of pg = NormalSwap"
    by blast
  show ?thesis
    using p(2-4) s2 mark_finish_fields [of cur pg' s2]
    by (simp add: p(1) pg [symmetric] marker_writes_append swp_entry_def)
qed

lemma mark_swapfiles_resume:
  assumes "root_swap s \<noteq> 0xFFFF" and "page_alloc s 0 = a # rest" and "a \<noteq> 0"
    and "marker_of (swap_pages s (root_swap s) 0) = SuspendCommitted"
  shows "\<exists>s'. mark_swapfiles prev MARK_SWAP_RESUME s = Inr s'
         \<and> marker_of (swap_pages s' (root_swap s) 0) = NormalSwap
         \<and> marker_writes (root_swap s) (io_log s') = marker_writes (root_swap s) (io_log s) @ [NormalSwap]
         \<and> root_swap s' = root_swap s"
proof -
  obtain s1 where g: "get_free_pages 0 s = (a, s1)"
    using assms(2) by (simp add: get_free_pages_def)
  note fr = get_free_pages_frame [OF g]
  define s2 where "s2 = swap_read (swp_entry (root_swap s1) 0) a s1"
  define pg where "pg = mem s2 a"
  have pg: "pg = swap_pages s (root_swap s) 0"
    using fr by (simp add: pg_def s2_def swap_read_def swp_entry_def)
  have s2: "root_swap s2 = root_swap s" "marker_writes (root_swap s) (io_log s2) = marker_writes (root_swap s) (io_log s)"
    using fr by (simp_all add: s2_def swap_read_def marker_writes_append)
  have c1: "marker_of (pg\<lparr>magic := memcpy (magic pg) ''SWAP-SPACE'' 10\<rparr>) = NormalSwap"
    by (rule marker_of_normal_magic) (simp add: memcpy_def)
  have c2: "marker_of (pg\<lparr>magic := memcpy (magic pg) ''SWAPSPACE2'' 10\<rparr>) = NormalSwap"
    by (rule marker_of_normal_magic) (simp add: memcpy_def)
  have s12: "memcmp ''S1'' (magic pg) 2 = 0 \<or> memcmp ''S2'' (magic pg) 2 = 0"
    using assms(4) by (simp add: pg marker_of_def split: if_splits)
  have "\<exists>pg'. mark_swapfiles prev MARK_SWAP_RESUME s = Inr (mark_finish a pg' s2) \<and> marker_of pg' = NormalSwap"
    unfolding mark_swapfiles_unfold [OF assms(1) g] s2_def [symmetric] Let_def pg_def [symmetric]
    using c1 c2 s12 assms(3) by auto
  then obtain pg' where p: "mark_swapfiles prev MARK_SWAP_RESUME s = Inr (mark_finish a pg' s2)"
      "marker_of pg' = NormalSwap"
    by blast
  show ?thesis
    using p(2) s2 mark_finish_fields [of a pg' s2]
    by (simp add: p(1) marker_writes_append swp_entry_def)
qed

lemma get_zeroed_page_frame:
  "get_zeroed_page s = (a, s1) \<Longrightarrow>
   root_swap s1 = root_swap s \<and> swap_pages s1 = swap_pages s \<and> io_log s1 = io_log s
   \<and> swap_alloc s1 = swap_alloc s \<and> swapfile_used s1 = swapfile_used s
   \<and> nr_copy_pages s1 = nr_copy_pages s \<and> pagedir_nosave s1 = pagedir_nosave s
   \<and> pagedir_save s1 = pagedir_save s \<and> pagedir_order s1 = pagedir_order s"
  by (auto simp: get_zeroed_page_def split: prod.splits if_splits dest: get_free_pages_frame)

lemma write_suspend_image_marker:
  assumes "write_suspend_image c s = Inr (r, s')" and "root_swap s \<noteq> 0xFFFF"
    and "\<forall>e \<in> set (swap_alloc s). swp_offset e \<noteq> 0"
  shows "r = 0 \<and> marker_of (swap_pages s (root_swap s) 0) = NormalSwap
         \<and> marker_writes (root_swap s) (io_log s') = marker_writes (root_swap s) (io_log s) @ [SuspendCommitted]
         \<and> marker_of (swap_pages s' (root_swap s) 0) = SuspendCommitted"
proof -
  let ?r = "root_swap s"
  obtain buffer s0 where z: "get_zeroed_page s = (buffer, s0)" by (cases "get_zeroed_page s")
  note fz = get_zeroed_page_frame [OF z]
  from assms(1) z obtain s1 where d: "write_data_loop c [0..<nr_copy_pages s0] s0 = Inr s1"
    by (auto simp: write_suspend_image_def Let_def split: sum.splits)
  from assms(1) z d obtain prev s2 where
    p: "write_pagedir_loop c [0..<SUSPEND_PD_PAGES c (nr_copy_pages s)] (swp_entry 0 0) s1 = Inr (prev, s2)"
    by (auto simp: write_suspend_image_def Let_def split: sum.splits)
  obtain entry s3 where g: "get_swap_page s2 = (entry, s3)" by (cases "get_swap_page s2")
  have k0: "marker_kept ?r s s0"
    using fz by (simp add: marker_kept_def)
  have a0: "\<forall>e \<in> set (swap_alloc s0). swp_offset e \<noteq> 0"
    using fz assms(3) by simp
  note k1 = write_data_loop_marker [OF d a0, of ?r]
  have a1: "\<forall>e \<in> set (swap_alloc s1). swp_offset e \<noteq> 0"
    using k1 a0 by (auto simp: marker_kept_def)
  note k2 = write_pagedir_loop_marker [OF p a1, of ?r]
  have a2: "\<forall>e \<in> set (swap_alloc s2). swp_offset e \<noteq> 0"
    using k2 a1 by (auto simp: marker_kept_def)
  from assms(1) z d p g have nz: "\<not> val_is_zero entry"
    by (auto simp: write_suspend_image_def Let_def split: if_splits)
  from get_swap_page_entry [OF g nz] obtain rest where ge: "swap_alloc s2 = entry # rest" "s3 = s2\<lparr>swap_alloc := rest\<rparr>"
    by blast
  have off: "swp_offset entry \<noteq> 0" using ge a2 by auto
  from assms(1) z d p g nz obtain h where h: "fill_suspend_header c s3 = Inr h"
    by (auto simp: write_suspend_image_def Let_def split: if_splits sum.splits)
  define s5 where "s5 = swap_write entry buffer (s3\<lparr>mem := (mem s3)(buffer := (mem s3 buffer)\<lparr>sh := h, link_next := prev\<rparr>)\<rparr>)"
  from assms(1) z d p g nz h obtain s6 where
    m: "mark_swapfiles entry MARK_SWAP_SUSPEND s5 = Inr s6" and r: "r = 0" and s': "s' = free_pages buffer 0 s6"
    by (auto simp: write_suspend_image_def Let_def s5_def split: if_splits sum.splits)
  have k3: "marker_kept ?r s2 s5"
    using ge off by (auto simp: s5_def marker_kept_def swap_write_def marker_writes_append)
  have k: "marker_kept ?r s s5"
    using k0 k1 k2 k3 by (blast intro: marker_kept_trans)
  then have rs: "root_swap s5 = ?r" by (simp add: marker_kept_def)
  from mark_swapfiles_suspend [OF m] rs assms(2) k show ?thesis
    by (simp add: r s' free_pages_def marker_kept_def)
qed

lemma fold_keeps: "(\<And>x s. g (f x s) = g s) \<Longrightarrow> g (fold f xs s) = g s"
  by (induction xs arbitrary: s) simp_all

lemma io_part_simps [simp]:
  "io_part (s\<lparr>mem := m\<rparr>) = io_part s"
  "io_part (s\<lparr>page_alloc := pa\<rparr>) = io_part s"
  "io_part (s\<lparr>freed := fr\<rparr>) = io_part s"
  "io_part (s\<lparr>PageNosave := pn\<rparr>) = io_part s"
  "io_part (s\<lparr>free_region := fg\<rparr>) = io_part s"
  "io_part (s\<lparr>drained := dr\<rparr>) = io_part s"
  "io_part (s\<lparr>nr_copy_pages := n\<rparr>) = io_part s"
  "io_part (s\<lparr>pagedir_nosave := p1\<rparr>) = io_part s"
  "io_part (s\<lparr>pagedir_save := p2\<rparr>) = io_part s"
  "io_part (s\<lparr>pagedir_order := p3\<rparr>) = io_part s"
  "io_part (s\<lparr>nr_copy_pages_check := p4\<rparr>) = io_part s"
  "io_part (s\<lparr>pagedir_order_check := p5\<rparr>) = io_part s"
  "io_part (s\<lparr>swap_flags := p6\<rparr>) = io_part s"
  "io_part (s\<lparr>swapfile_used := p7\<rparr>) = io_part s"
  "io_part (s\<lparr>root_swap := p8\<rparr>) = io_part s"
  by (simp_all add: io_part_def)

lemma io_part_get_free_pages: "get_free_pages k s = (a, s') \<Longrightarrow> io_part s' = io_part s"
  by (auto simp: get_free_pages_def split: list.splits)

lemma io_part_get_zeroed_page: "get_zeroed_page s = (a, s') \<Longrightarrow> io_part s' = io_part s"
  by (auto simp: get_zeroed_page_def split: prod.splits if_splits dest: io_part_get_free_pages)

lemma io_part_free_suspend_pagedir [simp]: "io_part (free_suspend_pagedir c pd s) = io_part s"
proof -
  have "io_part (free_suspend_pagedir_step c a b pfn t) = io_part t" for a b pfn t
    by (simp add: free_suspend_pagedir_step_def free_pages_def Let_def)
  then show ?thesis
    by (simp add: free_suspend_pagedir_def Let_def free_pages_def fold_keeps [where g = io_part])
qed

lemma io_part_create_pagedir_loop:
  "create_pagedir_loop c pd ks s = (r, s') \<Longrightarrow> io_part s' = io_part s"
proof (induction ks arbitrary: s)
  case Nil
  then show ?case by simp
next
  case (Cons k ks)
  obtain a s1 where g: "get_zeroed_page s = (a, s1)" by (cases "get_zeroed_page s")
  from Cons.prems g io_part_get_zeroed_page [OF g] show ?case
    by (auto simp: Let_def SetPageNosave_def split: if_splits dest!: Cons.IH)
qed

lemma io_part_create_suspend_pagedir:
  "create_suspend_pagedir c n s = (pd, s') \<Longrightarrow> io_part s' = io_part s"
proof -
  assume a: "create_suspend_pagedir c n s = (pd, s')"
  obtain pagedir s2 where g: "get_free_pages (get_bitmask_order c (SUSPEND_PD_PAGES c n))
      (s\<lparr>pagedir_order := get_bitmask_order c (SUSPEND_PD_PAGES c n)\<rparr>) = (pagedir, s2)"
    by (cases "get_free_pages (get_bitmask_order c (SUSPEND_PD_PAGES c n))
      (s\<lparr>pagedir_order := get_bitmask_order c (SUSPEND_PD_PAGES c n)\<rparr>)")
  have s2: "io_part s2 = io_part s"
    using io_part_get_free_pages [OF g] by simp
  have f: "io_part (fold (\<lambda>i. SetPageNosave (virt_to_pfn c pagedir + i)) xs s2) = io_part s2" for xs
    by (rule fold_keeps) (simp add: SetPageNosave_def)
  from a g s2 f show ?thesis
    by (auto simp: create_suspend_pagedir_def Let_def split: if_splits dest!: io_part_create_pagedir_loop)
qed

lemma io_part_drain [simp]: "io_part (drain_local_pages s) = io_part s"
  by (simp add: drain_local_pages_def split: list.splits)

lemma io_part_count:
  "count_and_copy_data_pages c p s = Inr (n, s') \<Longrightarrow> io_part s' = io_part s"
  using count_mem_only [of c p s n s'] by (metis io_part_simps(1))

lemma suspend_prepare_image_io:
  assumes "suspend_prepare_image c u = Inr (r, u')"
  shows "io_log u' = io_log u \<and> swap_pages u' = swap_pages u \<and> swap_alloc u' = swap_alloc u"
proof -
  let ?u1 = "(drain_local_pages u)\<lparr>pagedir_nosave := 0\<rparr>"
  from assms obtain n u2 where c1: "count_and_copy_data_pages c None ?u1 = Inr (n, u2)"
    by (auto simp: suspend_prepare_image_def Let_def split: sum.splits)
  have u2: "u2 = ?u1" using count_None [OF c1] .
  let ?u3 = "?u1\<lparr>nr_copy_pages := n\<rparr>"
  show ?thesis
  proof (cases "nr_free_pages ?u3 < (nr_copy_pages ?u3 + PAGES_FOR_IO) mod 2 ^ 32 \<or> freeswap ?u3 < (nr_copy_pages ?u3 + PAGES_FOR_IO) mod 2 ^ 32")
    case True
    with assms c1 [unfolded u2] have "io_part u' = io_part u"
      by (auto simp: suspend_prepare_image_def Let_def io_part_def split: if_splits)
    then show ?thesis by (simp add: io_part_def)
  next
    case False
    obtain pd u4 where cr: "create_suspend_pagedir c n ?u3 = (pd, u4)"
      by (cases "create_suspend_pagedir c n ?u3")
    have u4: "io_part u4 = io_part u" using io_part_create_suspend_pagedir [OF cr] by simp
    let ?u6 = "drain_local_pages (u4\<lparr>pagedir_save := pd, pagedir_nosave := pd,
        nr_copy_pages_check := nr_copy_pages u4, pagedir_order_check := pagedir_order u4\<rparr>)"
    from assms c1 [unfolded u2] False cr obtain n' where c2: "count_and_copy_data_pages c (Some pd) ?u6 = Inr (n', u')"
      by (auto simp: suspend_prepare_image_def Let_def split: if_splits sum.splits)
    from io_part_count [OF c2] u4 have "io_part u' = io_part u" by simp
    then show ?thesis by (simp add: io_part_def)
  qed
qed

lemma swsusp_free_marker:
  assumes "root_swap t \<noteq> 0xFFFF" and "page_alloc t 0 = a # rest" and "a \<noteq> 0"
    and "marker_of (swap_pages t (root_swap t) 0) = SuspendCommitted"
  shows "\<exists>t'. swsusp_free c t = Inr (0, t')
         \<and> marker_of (swap_pages t' (root_swap t) 0) = NormalSwap
         \<and> marker_writes (root_swap t) (io_log t') = marker_writes (root_swap t) (io_log t) @ [NormalSwap]"
proof -
  let ?t1 = "free_suspend_pagedir c (pagedir_save t) t"
  have io: "io_part ?t1 = io_part t" by simp
  have "page_alloc (free_suspend_pagedir_step c x y pfn u) = page_alloc u" for x y pfn u
    by (simp add: free_suspend_pagedir_step_def free_pages_def Let_def)
  then have pa: "page_alloc ?t1 = page_alloc t"
    by (simp add: free_suspend_pagedir_def Let_def free_pages_def fold_keeps [where g = page_alloc])
  have "root_swap (free_suspend_pagedir_step c x y pfn u) = root_swap u" for x y pfn u
    by (simp add: free_suspend_pagedir_step_def free_pages_def Let_def)
  then have rs: "root_swap ?t1 = root_swap t"
    by (simp add: free_suspend_pagedir_def Let_def free_pages_def fold_keeps [where g = root_swap])
  from io rs have f: "root_swap ?t1 = root_swap t" "swap_pages ?t1 = swap_pages t" "io_log ?t1 = io_log t"
    by (simp_all add: io_part_def)
  from mark_swapfiles_resume [of ?t1 a rest "swp_entry 0 0"] assms f pa
  show ?thesis by (auto simp: swsusp_free_def)
qed

text \<open>
  The slots \<open>write_suspend_image\<close> writes, in order, and the one step of the marker
  that \<open>mark_swapfiles\<close> makes.
\<close>

lemma marker_committed_iff:
  "(marker_of pg = SuspendCommitted)
     = (memcmp ''S1'' (magic pg) 2 = 0 \<or> memcmp ''S2'' (magic pg) 2 = 0)"
proof -
  have two: "(2::nat) = Suc (Suc 0)" and ten: "(10::nat) = Suc (Suc 8)" by simp_all
  have "memcmp ''SWAP-SPACE'' (magic pg) 10 \<noteq> 0 \<and> memcmp ''SWAPSPACE2'' (magic pg) 10 \<noteq> 0"
    if "memcmp ''S1'' (magic pg) 2 = 0 \<or> memcmp ''S2'' (magic pg) 2 = 0"
    using that memcmp_Suc_Suc [of "''S1''" "magic pg" 0] memcmp_Suc_Suc [of "''S2''" "magic pg" 0]
      memcmp_Suc_Suc [of "''SWAP-SPACE''" "magic pg" 8] memcmp_Suc_Suc [of "''SWAPSPACE2''" "magic pg" 8]
    unfolding two [symmetric] ten [symmetric]
    by (auto simp: byte_at_def)
  then show ?thesis
    by (auto simp: marker_of_def)
qed

lemma slots_written_refl: "slots_written 0 s s"
  by (simp add: slots_written_def)

lemma slots_written_trans:
  assumes "slots_written j s t" and "slots_written k t u"
  shows "slots_written (j + k) s u"
proof -
  from assms(1) obtain evs1 where 1: "j \<le> length (swap_alloc s)" "swap_alloc t = drop j (swap_alloc s)"
      "io_log t = io_log s @ evs1" "map write_slot evs1 = map Some (take j (swap_alloc s))"
    by (auto simp: slots_written_def)
  from assms(2) obtain evs2 where 2: "k \<le> length (swap_alloc t)" "swap_alloc u = drop k (swap_alloc t)"
      "io_log u = io_log t @ evs2" "map write_slot evs2 = map Some (take k (swap_alloc t))"
    by (auto simp: slots_written_def)
  have "map write_slot (evs1 @ evs2) = map Some (take (j + k) (swap_alloc s))"
    using 1(4) 2(4) by (simp add: 1(2) take_add)
  moreover have "io_log u = io_log s @ evs1 @ evs2"
    by (simp add: 1(3) 2(3))
  moreover have "j + k \<le> length (swap_alloc s)"
    using 1(1) 2(1) by (simp add: 1(2))
  moreover have "swap_alloc u = drop (j + k) (swap_alloc s)"
    by (simp add: 2(2) 1(2) add.commute)
  ultimately show ?thesis
    unfolding slots_written_def by blast
qed

lemma slots_written_one:
  assumes "swap_alloc s = e # rest" and "swap_alloc t = rest" and "io_log t = io_log s @ [SwapWrite e pg]"
  shows "slots_written 1 s t"
  unfolding slots_written_def using assms by (auto intro!: exI [of _ "[SwapWrite e pg]"])

lemma slots_written_Suc:
  "slots_written 1 s t \<Longrightarrow> slots_written k t u \<Longrightarrow> slots_written (Suc k) s u"
  using slots_written_trans [of 1 s t k u] by simp

lemma write_data_loop_log:
  "write_data_loop c js s = Inr s' \<Longrightarrow> slots_written (length js) s s'"
proof (induction js arbitrary: s)
  case Nil
  then show ?case by (simp add: slots_written_refl)
next
  case (Cons i js)
  obtain e s1 where g: "get_swap_page s = (e, s1)" by (cases "get_swap_page s")
  from Cons.prems(1) g have nz: "\<not> val_is_zero e"
    by (auto split: if_splits)
  from get_swap_page_entry [OF g nz] obtain rest where ge: "swap_alloc s = e # rest" "s1 = s\<lparr>swap_alloc := rest\<rparr>"
    by blast
  let ?a = "address (pbe_at c (mem s1) (pagedir_nosave s1) i)"
  let ?s2 = "swap_write e ?a s1"
  let ?s3 = "?s2\<lparr>mem := pbe_update c (pagedir_nosave ?s2) i (\<lambda>p. p\<lparr>swap_address := e\<rparr>) (mem ?s2)\<rparr>"
  from Cons.prems(1) g nz have rest: "write_data_loop c js ?s3 = Inr s'"
    by (auto simp: Let_def split: if_splits)
  have "slots_written 1 s ?s3"
    by (rule slots_written_one [OF ge(1), of _ "mem s1 ?a"]) (simp_all add: swap_write_def ge(2))
  from slots_written_Suc [OF this Cons.IH [OF rest]] show ?case by simp
qed

lemma write_pagedir_loop_log:
  "write_pagedir_loop c js prev s = Inr (prev', s') \<Longrightarrow> slots_written (length js) s s'"
proof (induction js arbitrary: s prev)
  case Nil
  then show ?case by (simp add: slots_written_refl)
next
  case (Cons i js)
  obtain e s1 where g: "get_swap_page s = (e, s1)" by (cases "get_swap_page s")
  from Cons.prems(1) g have nz: "\<not> val_is_zero e"
    by (auto simp: Let_def split: if_splits)
  from get_swap_page_entry [OF g nz] obtain rest where ge: "swap_alloc s = e # rest" "s1 = s\<lparr>swap_alloc := rest\<rparr>"
    by blast
  let ?cur = "pagedir_nosave s + i * PAGE_SIZE c"
  let ?s2 = "s1\<lparr>mem := (mem s1)(?cur := (mem s1 ?cur)\<lparr>link_next := prev\<rparr>)\<rparr>"
  let ?s3 = "swap_write e ?cur ?s2"
  from Cons.prems(1) g nz have rest: "write_pagedir_loop c js e ?s3 = Inr (prev', s')"
    by (auto simp: Let_def split: if_splits)
  have "slots_written 1 s ?s3"
    by (rule slots_written_one [OF ge(1), of _ "mem ?s2 ?cur"]) (simp_all add: swap_write_def ge(2))
  from slots_written_Suc [OF this Cons.IH [OF rest]] show ?case by simp
qed

lemma mark_swapfiles_step:
  assumes "mark_swapfiles prev mode s = Inr s'" and "root_swap s \<noteq> 0xFFFF"
  shows "\<exists>pg'. io_log s' = io_log s @ [SwapRead (swp_entry (root_swap s) 0),
                                        SwapWrite (swp_entry (root_swap s) 0) pg']
           \<and> swap_pages s' (root_swap s) 0 = pg' \<and> root_swap s' = root_swap s
           \<and> ((mode \<noteq> MARK_SWAP_RESUME \<and> marker_of (swap_pages s (root_swap s) 0) = NormalSwap
                  \<and> marker_of pg' = SuspendCommitted \<and> link_next pg' = prev)
               \<or> (mode = MARK_SWAP_RESUME \<and> marker_of (swap_pages s (root_swap s) 0) = SuspendCommitted
                  \<and> marker_of pg' = NormalSwap)
               \<or> (mode = MARK_SWAP_RESUME \<and> marker_of (swap_pages s (root_swap s) 0) \<noteq> SuspendCommitted
                  \<and> pg' = swap_pages s (root_swap s) 0))"
proof -
  obtain cur s1 where g: "get_free_pages 0 s = (cur, s1)" by (cases "get_free_pages 0 s")
  note fr = get_free_pages_frame [OF g]
  define s2 where "s2 = swap_read (swp_entry (root_swap s1) 0) cur s1"
  define pg where "pg = mem s2 cur"
  have pg: "pg = swap_pages s (root_swap s) 0"
    using fr by (simp add: pg_def s2_def swap_read_def swp_entry_def)
  have s2: "root_swap s2 = root_swap s"
      "io_log s2 = io_log s @ [SwapRead (swp_entry (root_swap s) 0)]"
    using fr by (simp_all add: s2_def swap_read_def)
  have c1: "marker_of (pg\<lparr>magic := memcpy (magic pg) ''S1SUSP....'' 10, link_next := prev\<rparr>) = SuspendCommitted"
    by (rule marker_of_suspend_magic) (simp add: memcpy_def)
  have c2: "marker_of (pg\<lparr>magic := memcpy (magic pg) ''S2SUSP....'' 10, link_next := prev\<rparr>) = SuspendCommitted"
    by (rule marker_of_suspend_magic) (simp add: memcpy_def)
  have n1: "marker_of (pg\<lparr>magic := memcpy (magic pg) ''SWAP-SPACE'' 10\<rparr>) = NormalSwap"
    by (rule marker_of_normal_magic) (simp add: memcpy_def)
  have n2: "marker_of (pg\<lparr>magic := memcpy (magic pg) ''SWAPSPACE2'' 10\<rparr>) = NormalSwap"
    by (rule marker_of_normal_magic) (simp add: memcpy_def)
  have n: "memcmp ''SWAP-SPACE'' (magic pg) 10 = 0 \<or> memcmp ''SWAPSPACE2'' (magic pg) 10 = 0
      \<Longrightarrow> marker_of pg = NormalSwap"
    by (simp add: marker_of_def)
  note ci = marker_committed_iff [of pg]
  from assms(1) have "\<exists>pg'. s' = mark_finish cur pg' s2
      \<and> ((mode \<noteq> MARK_SWAP_RESUME \<and> marker_of pg = NormalSwap
                  \<and> marker_of pg' = SuspendCommitted \<and> link_next pg' = prev)
               \<or> (mode = MARK_SWAP_RESUME \<and> marker_of pg = SuspendCommitted \<and> marker_of pg' = NormalSwap)
               \<or> (mode = MARK_SWAP_RESUME \<and> marker_of pg \<noteq> SuspendCommitted \<and> pg' = pg))"
    unfolding mark_swapfiles_unfold [OF assms(2) g] s2_def [symmetric] Let_def pg_def [symmetric]
    using c1 c2 n1 n2 n ci by (auto split: if_splits)
  then obtain pg' where p: "s' = mark_finish cur pg' s2"
      and q: "(mode \<noteq> MARK_SWAP_RESUME \<and> marker_of pg = NormalSwap
                  \<and> marker_of pg' = SuspendCommitted \<and> link_next pg' = prev)
               \<or> (mode = MARK_SWAP_RESUME \<and> marker_of pg = SuspendCommitted \<and> marker_of pg' = NormalSwap)
               \<or> (mode = MARK_SWAP_RESUME \<and> marker_of pg \<noteq> SuspendCommitted \<and> pg' = pg)"
    by blast
  have "io_log s' = io_log s @ [SwapRead (swp_entry (root_swap s) 0),
                                        SwapWrite (swp_entry (root_swap s) 0) pg']"
    "swap_pages s' (root_swap s) 0 = pg'" "root_swap s' = root_swap s"
    using s2 mark_finish_fields [of cur pg' s2] by (simp_all add: p)
  with q [unfolded pg] show ?thesis by blast
qed

lemma write_suspend_image_log:
  assumes "write_suspend_image c s = Inr (r, s')" and "root_swap s \<noteq> 0xFFFF"
    and "\<forall>e \<in> set (swap_alloc s). swp_offset e \<noteq> 0"
    and "k = nr_copy_pages s + SUSPEND_PD_PAGES c (nr_copy_pages s)"
  shows "\<exists>evs pg. io_log s' = io_log s @ evs @ [SwapRead (swp_entry (root_swap s) 0),
                                                   SwapWrite (swp_entry (root_swap s) 0) pg]
           \<and> map write_slot evs = map Some (take (Suc k) (swap_alloc s))
           \<and> Suc k \<le> length (swap_alloc s)
           \<and> marker_of pg = SuspendCommitted \<and> link_next pg = swap_alloc s ! k
           \<and> swap_pages s' (root_swap s) 0 = pg"
proof -
  let ?r = "root_swap s"
  obtain buffer s0 where z: "get_zeroed_page s = (buffer, s0)" by (cases "get_zeroed_page s")
  note fz = get_zeroed_page_frame [OF z]
  from assms(1) z obtain s1 where d: "write_data_loop c [0..<nr_copy_pages s0] s0 = Inr s1"
    by (auto simp: write_suspend_image_def Let_def split: sum.splits)
  from assms(1) z d obtain prev s2 where
    p: "write_pagedir_loop c [0..<SUSPEND_PD_PAGES c (nr_copy_pages s)] (swp_entry 0 0) s1 = Inr (prev, s2)"
    by (auto simp: write_suspend_image_def Let_def split: sum.splits)
  obtain entry s3 where g: "get_swap_page s2 = (entry, s3)" by (cases "get_swap_page s2")
  have k0: "marker_kept ?r s s0"
    using fz by (simp add: marker_kept_def)
  have a0: "\<forall>e \<in> set (swap_alloc s0). swp_offset e \<noteq> 0"
    using fz assms(3) by simp
  note k1 = write_data_loop_marker [OF d a0, of ?r]
  have a1: "\<forall>e \<in> set (swap_alloc s1). swp_offset e \<noteq> 0"
    using k1 a0 by (auto simp: marker_kept_def)
  note k2 = write_pagedir_loop_marker [OF p a1, of ?r]
  have a2: "\<forall>e \<in> set (swap_alloc s2). swp_offset e \<noteq> 0"
    using k2 a1 by (auto simp: marker_kept_def)
  from assms(1) z d p g have nz: "\<not> val_is_zero entry"
    by (auto simp: write_suspend_image_def Let_def split: if_splits)
  from get_swap_page_entry [OF g nz] obtain rest where ge: "swap_alloc s2 = entry # rest" "s3 = s2\<lparr>swap_alloc := rest\<rparr>"
    by blast
  have off: "swp_offset entry \<noteq> 0" using ge a2 by auto
  from assms(1) z d p g nz obtain h where h: "fill_suspend_header c s3 = Inr h"
    by (auto simp: write_suspend_image_def Let_def split: if_splits sum.splits)
  define s5 where "s5 = swap_write entry buffer (s3\<lparr>mem := (mem s3)(buffer := (mem s3 buffer)\<lparr>sh := h, link_next := prev\<rparr>)\<rparr>)"
  from assms(1) z d p g nz h obtain s6 where
    m: "mark_swapfiles entry MARK_SWAP_SUSPEND s5 = Inr s6" and s': "s' = free_pages buffer 0 s6"
    by (auto simp: write_suspend_image_def Let_def s5_def split: if_splits sum.splits)
  have k3: "marker_kept ?r s2 s5"
    using ge off by (auto simp: s5_def marker_kept_def swap_write_def marker_writes_append)
  have kk: "marker_kept ?r s s5"
    using k0 k1 k2 k3 by (blast intro: marker_kept_trans)
  then have rs: "root_swap s5 = ?r" and sp: "swap_pages s5 ?r 0 = swap_pages s ?r 0"
    by (simp_all add: marker_kept_def)
  have w1: "slots_written (nr_copy_pages s) s0 s1"
    using write_data_loop_log [OF d] fz by simp
  have w2: "slots_written (SUSPEND_PD_PAGES c (nr_copy_pages s)) s1 s2"
    using write_pagedir_loop_log [OF p] by simp
  have w3: "slots_written 1 s2 s5"
    by (rule slots_written_one [OF ge(1), of _ "(mem s3 buffer)\<lparr>sh := h, link_next := prev\<rparr>"])
       (simp_all add: s5_def swap_write_def ge(2))
  from slots_written_trans [OF w1 w2] have w12: "slots_written k s0 s2"
    by (simp add: assms(4))
  from slots_written_trans [OF w12 w3] have w: "slots_written (Suc k) s0 s5"
    by simp
  then obtain evs where e: "Suc k \<le> length (swap_alloc s)" "io_log s5 = io_log s @ evs"
      "map write_slot evs = map Some (take (Suc k) (swap_alloc s))"
    using fz by (auto simp: slots_written_def)
  from w12 ge(1) have "drop k (swap_alloc s) = entry # rest"
    using fz by (simp add: slots_written_def)
  then have en: "swap_alloc s ! k = entry"
    by (rule nth_via_drop)
  from mark_swapfiles_step [OF m] rs assms(2)
  obtain pg' where q: "io_log s6 = io_log s5 @ [SwapRead (swp_entry ?r 0), SwapWrite (swp_entry ?r 0) pg']"
      "swap_pages s6 ?r 0 = pg'" "marker_of pg' = SuspendCommitted" "link_next pg' = entry"
    by (auto simp: MARK_SWAP_SUSPEND_def MARK_SWAP_RESUME_def)
  show ?thesis
    using e q en by (auto simp: s' free_pages_def)
qed

lemma swsusp_free_log:
  assumes "root_swap t \<noteq> 0xFFFF" and "page_alloc t 0 = a # rest" and "a \<noteq> 0"
    and "marker_of (swap_pages t (root_swap t) 0) = SuspendCommitted"
  shows "\<exists>t' pg. swsusp_free c t = Inr (0, t')
         \<and> io_log t' = io_log t @ [SwapRead (swp_entry (root_swap t) 0),
                                     SwapWrite (swp_entry (root_swap t) 0) pg]
         \<and> marker_of pg = NormalSwap \<and> swap_pages t' (root_swap t) 0 = pg"
proof -
  let ?t1 = "free_suspend_pagedir c (pagedir_save t) t"
  have io: "io_part ?t1 = io_part t" by simp
  have "root_swap (free_suspend_pagedir_step c x y pfn u) = root_swap u" for x y pfn u
    by (simp add: free_suspend_pagedir_step_def free_pages_def Let_def)
  then have rs: "root_swap ?t1 = root_swap t"
    by (simp add: free_suspend_pagedir_def Let_def free_pages_def fold_keeps [where g = root_swap])
  from io have f: "swap_pages ?t1 = swap_pages t" "io_log ?t1 = io_log t"
    by (simp_all add: io_part_def)
  from swsusp_free_marker [OF assms, of c] obtain t' where
    t': "mark_swapfiles (swp_entry 0 0) MARK_SWAP_RESUME ?t1 = Inr t'" "swsusp_free c t = Inr (0, t')"
    by (auto simp: swsusp_free_def split: sum.splits)
  from mark_swapfiles_step [OF t'(1)] rs assms(1,4) f t'(2) show ?thesis
    by auto
qed

lemmas save_defs = save_state_def copied_state_def state_of_def example_defs eval_defs
  read_swapfiles_def read_swapfiles_step_def lock_swapdevices_def
  swap_write_def swap_read_def get_swap_page_def free_pages_def
  swp_entry_def val_is_zero_def strlen_dev_hda2 SWAPFILE_UNUSED_def SWAPFILE_SUSPEND_def
  SWAPFILE_IGNORED_def MARK_SWAP_SUSPEND_def MARK_SWAP_RESUME_def

lemma copied_state_io:
  "root_swap copied_state = 0 \<and> io_log copied_state = []
   \<and> swap_alloc copied_state = [swp_entry 0 1, swp_entry 0 2, swp_entry 0 3, swp_entry 0 4, swp_entry 0 5]
   \<and> nr_copy_pages copied_state = 3"
  by (simp add: save_defs
      cong: sum.case_cong_weak prod.case_cong_weak list.case_cong_weak option.case_cong_weak)

lemma copied_state_written:
  "\<exists>x. write_suspend_image example_config copied_state = Inr x"
  by (simp add: save_defs write_suspend_image_def mark_swapfiles_def fill_suspend_header_def
      memcmp_eq_0_iff
      cong: sum.case_cong_weak prod.case_cong_weak list.case_cong_weak option.case_cong_weak)

lemma result_of_Inr: "r = Inr (e, s) \<Longrightarrow> result_of r = Inr e \<and> state_of r = s"
  by (simp add: result_of_def state_of_def)


lemma resumed_state_marker:
  "marker_of (swap_pages resumed_state (root_swap resumed_state) 0) = SuspendCommitted"
  by (rule marker_of_suspend_magic) (simp add: resumed_state_def example_state_def)

lemma suspend_state_prepared: "\<exists>x. suspend_prepare_image example_config suspend_state = Inr x"
  by (simp add: example_defs eval_defs
      cong: sum.case_cong_weak prod.case_cong_weak list.case_cong_weak option.case_cong_weak)



end
